theory Spec2Isabelle
  imports Complex_Main
begin

section \<open>JSON values and JavaScript strings\<close>

text \<open>
  The frontend receives its documents and manifests as parsed JSON, so a value of type
  \<^verbatim>\<open>unknown\<close> is one of null, a boolean, a number, a string, an array or an object.
  An object is the list of its entries in the order \<^verbatim>\<open>Object.entries\<close> enumerates them.
  A string is the list of its code units; a \<^typ>\<open>char\<close> stands for a code unit below 256.
  The type of numbers and the text \<^verbatim>\<open>String(n)\<close> of a number are parameters
  (\<open>'n\<close> and \<open>ns\<close>): the shortest round-trip rendering of a double is not modelled.
\<close>

datatype 'n json =
    JNull
  | JBool bool
  | JNum 'n
  | JStr string
  | JArr "'n json list"
  | JObj "(string \<times> 'n json) list"

type_synonym 'n jsobject = "(string \<times> 'n json) list"

text \<open>\<^verbatim>\<open>typeof value !== 'object' || value === null\<close>\<close>

fun is_primitive :: "'n json \<Rightarrow> bool" where
  "is_primitive (JArr vs) = False"
| "is_primitive (JObj es) = False"
| "is_primitive v = True"

text \<open>\<^verbatim>\<open>String.prototype.repeat\<close> and \<^verbatim>\<open>Array.prototype.join\<close>.\<close>

fun repeat :: "string \<Rightarrow> nat \<Rightarrow> string" where
  "repeat s 0 = []"
| "repeat s (Suc n) = s @ repeat s n"

declare repeat.simps [simp del]

fun join :: "string \<Rightarrow> string list \<Rightarrow> string" where
  "join sep [] = []"
| "join sep [x] = x"
| "join sep (x # y # ys) = x @ sep @ join sep (y # ys)"

text \<open>
  \<^verbatim>\<open>String(n)\<close> for a Number \<open>n\<close> that is an integer of magnitude below \<open>2^53\<close>: up to
  there every integer is a Number and all its digits are printed. It is not
  \<^verbatim>\<open>String\<close> beyond: larger Numbers are rounded (\<open>2^60\<close> prints as
  \<^verbatim>\<open>1152921504606847000\<close>), from \<open>10^21\<close> on they are printed with an exponent, and the
  Number \<^verbatim>\<open>-0\<close>, which is no integer here, prints as \<^verbatim>\<open>0\<close>. This is the instance of the
  parameter \<open>ns\<close> used at concrete inputs, all of them small.
\<close>

definition digit_char :: "nat \<Rightarrow> char" where
  "digit_char n = ''0123456789'' ! (n mod 10)"

fun digits :: "nat \<Rightarrow> string" where
  "digits n = (if n < 10 then [digit_char n] else digits (n div 10) @ [digit_char n])"

declare digits.simps [simp del]

definition String_int :: "int \<Rightarrow> string" where
  "String_int i = (if i < 0 then CHR ''-'' # digits (nat (- i)) else digits (nat i))"

section \<open>dslText.ts: the pretty-printer\<close>

definition INDENT :: string where
  "INDENT = ''  ''"

text \<open>\<^verbatim>\<open>IDENTIFIER_RE = /^[A-Za-z_][A-Za-z0-9_.-]*$/\<close>, tested against the whole string.\<close>

definition in_range :: "char \<Rightarrow> char \<Rightarrow> char \<Rightarrow> bool" where
  "in_range lo hi c = ((of_char lo :: nat) \<le> of_char c \<and> (of_char c :: nat) \<le> of_char hi)"

definition ident_head :: "char \<Rightarrow> bool" where
  "ident_head c =
     (in_range CHR ''A'' CHR ''Z'' c \<or> in_range CHR ''a'' CHR ''z'' c \<or> c = CHR ''_'')"

definition ident_tail :: "char \<Rightarrow> bool" where
  "ident_tail c =
     (in_range CHR ''A'' CHR ''Z'' c \<or> in_range CHR ''a'' CHR ''z'' c \<or>
      in_range CHR ''0'' CHR ''9'' c \<or> c = CHR ''_'' \<or> c = CHR ''.'' \<or> c = CHR ''-'')"

definition IDENTIFIER_RE :: "string \<Rightarrow> bool" where
  "IDENTIFIER_RE s =
     (case s of [] \<Rightarrow> False | c # cs \<Rightarrow> ident_head c \<and> list_all ident_tail cs)"

definition RESERVED_WORDS :: "string list" where
  "RESERVED_WORDS = [''true'', ''false'', ''null'']"

definition isIdentifier :: "string \<Rightarrow> bool" where
  "isIdentifier v = (IDENTIFIER_RE v \<and> v \<notin> set RESERVED_WORDS)"

text \<open>
  \<^verbatim>\<open>JSON.stringify\<close> of a string: the quotation mark, the escapes of
  \<^verbatim>\<open>QuoteJSONString\<close> (the two-character escapes, \<^verbatim>\<open>\u00xx\<close> in lower-case hex
  for the other control characters), every other code unit as it is.
\<close>

definition hex_digit :: "nat \<Rightarrow> char" where
  "hex_digit n = ''0123456789abcdef'' ! (n mod 16)"

definition quote_unit :: "char \<Rightarrow> string" where
  "quote_unit c =
     (if c = CHR 0x08 then [CHR 0x5C, CHR ''b'']
      else if c = CHR 0x09 then [CHR 0x5C, CHR ''t'']
      else if c = CHR 0x0A then [CHR 0x5C, CHR ''n'']
      else if c = CHR 0x0C then [CHR 0x5C, CHR ''f'']
      else if c = CHR 0x0D then [CHR 0x5C, CHR ''r'']
      else if c = CHR 0x22 then [CHR 0x5C, CHR 0x22]
      else if c = CHR 0x5C then [CHR 0x5C, CHR 0x5C]
      else if (of_char c :: nat) < 0x20
        then [CHR 0x5C, CHR ''u'', CHR ''0'', CHR ''0'',
              hex_digit (of_char c div 16), hex_digit (of_char c)]
      else [c])"

definition JSON_stringify :: "string \<Rightarrow> string" where
  "JSON_stringify s = CHR 0x22 # concat (map quote_unit s) @ [CHR 0x22]"

text \<open>A string between quotation marks.\<close>

definition is_quoted :: "string \<Rightarrow> bool" where
  "is_quoted t = (2 \<le> length t \<and> hd t = CHR 0x22 \<and> last t = CHR 0x22)"

definition formatIdentifier :: "string \<Rightarrow> string" where
  "formatIdentifier v = (if isIdentifier v then v else JSON_stringify v)"

definition formatKey :: "string \<Rightarrow> string" where
  "formatKey v = (if isIdentifier v then v else JSON_stringify v)"

text \<open>
  \<^verbatim>\<open>formatValue\<close>, \<^verbatim>\<open>formatArray\<close> and \<^verbatim>\<open>formatObject\<close>. The last branch of
  \<^verbatim>\<open>formatValue\<close> (a value that is none of the JSON kinds) has no JSON input.
\<close>

fun formatValue :: "('n \<Rightarrow> string) \<Rightarrow> 'n json \<Rightarrow> nat \<Rightarrow> string"
  and formatArray :: "('n \<Rightarrow> string) \<Rightarrow> 'n json list \<Rightarrow> nat \<Rightarrow> string"
  and formatObject :: "('n \<Rightarrow> string) \<Rightarrow> 'n jsobject \<Rightarrow> nat \<Rightarrow> string"
where
  "formatValue ns JNull indentLevel = ''null''"
| "formatValue ns (JStr v) indentLevel = (if isIdentifier v then v else JSON_stringify v)"
| "formatValue ns (JNum n) indentLevel = ns n"
| "formatValue ns (JBool b) indentLevel = (if b then ''true'' else ''false'')"
| "formatValue ns (JArr values) indentLevel = formatArray ns values indentLevel"
| "formatValue ns (JObj entries) indentLevel = formatObject ns entries indentLevel"
| "formatArray ns values indentLevel =
     (if length values = 0 then ''[]''
      else
        let inlineValues = map (\<lambda>v. formatValue ns v indentLevel) values;
            inline = ''['' @ join '', '' inlineValues @ '']''
        in if length inline \<le> 88 \<and> list_all is_primitive values then inline
           else
             let indent = repeat INDENT indentLevel;
                 innerIndent = repeat INDENT (indentLevel + 1);
                 rows = map (\<lambda>v. innerIndent @ formatValue ns v (indentLevel + 1)) values
             in ''['' @ [CHR 0x0A] @ join ('','' @ [CHR 0x0A]) rows @ [CHR 0x0A] @ indent @ '']'')"
| "formatObject ns entries indentLevel =
     (if length entries = 0 then ''{}''
      else
        let inlineParts =
              map (\<lambda>(k, v). formatKey k @ '': '' @ formatValue ns v indentLevel) entries;
            inline = ''{ '' @ join '', '' inlineParts @ '' }''
        in if length inline \<le> 100 \<and> list_all (\<lambda>(k, v). is_primitive v) entries then inline
           else
             let indent = repeat INDENT indentLevel;
                 innerIndent = repeat INDENT (indentLevel + 1);
                 rows = map (\<lambda>(k, v).
                   innerIndent @ formatKey k @ '': '' @ formatValue ns v (indentLevel + 1)) entries
             in ''{'' @ [CHR 0x0A] @ join ('','' @ [CHR 0x0A]) rows @ [CHR 0x0A] @ indent @ ''}'')"

declare formatArray.simps [simp del]
declare formatObject.simps [simp del]

text \<open>The array \<^verbatim>\<open>lines\<close> is passed through; \<^verbatim>\<open>lines.push(x)\<close> is \<open>lines @ [x]\<close>.\<close>

definition pushOptionalObjectBlock ::
  "('n \<Rightarrow> string) \<Rightarrow> string list \<Rightarrow> string \<Rightarrow> 'n jsobject \<Rightarrow> nat \<Rightarrow> string list" where
  "pushOptionalObjectBlock ns lines label v indentLevel =
     (if length v = 0 then lines
      else
        let indent = repeat INDENT indentLevel
        in lines @ [indent @ label @ '' '' @ formatObject ns v indentLevel])"

subsection \<open>types.ts: the DSL document\<close>

datatype ThemeProfile = Profile_default | Profile_minimal | Profile_liquid_glass

datatype Density = Density_comfortable | Density_compact

fun ThemeProfile_str :: "ThemeProfile \<Rightarrow> string" where
  "ThemeProfile_str Profile_default = ''default''"
| "ThemeProfile_str Profile_minimal = ''minimal''"
| "ThemeProfile_str Profile_liquid_glass = ''liquid_glass''"

fun Density_str :: "Density \<Rightarrow> string" where
  "Density_str Density_comfortable = ''comfortable''"
| "Density_str Density_compact = ''compact''"

record DuiDslSurface =
  surface_id :: string
  surface_title :: string
  surface_route :: string

record 'n DuiDslMeta =
  document_id :: string
  revision :: 'n
  created_at :: string
  created_by :: string

record DuiDslTheme =
  profile :: ThemeProfile
  density :: Density
  tokens :: "(string \<times> string) list"

record 'n DuiDslState =
  locals :: "'n jsobject"

record 'n DuiDslNode =
  node_id :: string
  node_type :: string
  props :: "'n jsobject"
  style :: "'n jsobject"
  layout :: "'n jsobject"
  a11y :: "'n jsobject"
  visible_when :: "'n jsobject option"
  enabled_when :: "'n jsobject option"
  children :: "string list"
  slots :: "(string \<times> string list) list"
  node_on :: "(string \<times> string) list"

record 'n DuiDslBinding =
  binding_id :: string
  source :: string
  select :: string
  args :: "'n jsobject"
  cache :: "'n jsobject"

record 'n DuiDslAction =
  action_id :: string
  action_type :: string
  params :: "'n jsobject"

record 'n DuiDslDocument =
  dsl_version :: string
  surface :: DuiDslSurface
  meta :: "'n DuiDslMeta"
  theme :: DuiDslTheme
  state :: "'n DuiDslState"
  nodes :: "'n DuiDslNode list"
  bindings :: "'n DuiDslBinding list"
  actions :: "'n DuiDslAction list"
  layout_constraints :: "'n jsobject"

text \<open>The typed records \<^verbatim>\<open>Record<string, string>\<close> and \<^verbatim>\<open>Record<string, string[]>\<close> as objects.\<close>

definition string_record :: "(string \<times> string) list \<Rightarrow> 'n jsobject" where
  "string_record r = map (\<lambda>(k, v). (k, JStr v)) r"

definition strings_record :: "(string \<times> string list) list \<Rightarrow> 'n jsobject" where
  "strings_record r = map (\<lambda>(k, vs). (k, JArr (map JStr vs))) r"

subsection \<open>serializeDuiDslDocument\<close>

text \<open>The bodies of the three loops, each taking and returning \<^verbatim>\<open>lines\<close>.\<close>

definition emit_action :: "('n \<Rightarrow> string) \<Rightarrow> string list \<Rightarrow> 'n DuiDslAction \<Rightarrow> string list" where
  "emit_action ns lines0 action =
     (let lines = lines0 @ [''''];
          lines = lines @ [INDENT @ ''action '' @ formatIdentifier (action_id action) @ '' {''];
          lines = lines @ [INDENT @ INDENT @ ''type: '' @ formatValue ns (JStr (action_type action)) 2];
          lines = pushOptionalObjectBlock ns lines ''params'' (params action) 2
      in lines @ [INDENT @ ''}''])"

definition emit_node :: "('n \<Rightarrow> string) \<Rightarrow> string list \<Rightarrow> 'n DuiDslNode \<Rightarrow> string list" where
  "emit_node ns lines0 node =
     (let lines = lines0 @ [''''];
          lines = lines @ [INDENT @ ''node '' @ formatIdentifier (node_id node) @ '': '' @
                           formatIdentifier (node_type node) @ '' {''];
          lines = pushOptionalObjectBlock ns lines ''props'' (props node) 2;
          lines = pushOptionalObjectBlock ns lines ''style'' (style node) 2;
          lines = pushOptionalObjectBlock ns lines ''layout'' (layout node) 2;
          lines = pushOptionalObjectBlock ns lines ''a11y'' (a11y node) 2;
          lines = (case visible_when node of
                     None \<Rightarrow> lines
                   | Some c \<Rightarrow> pushOptionalObjectBlock ns lines ''visible_when'' c 2);
          lines = (case enabled_when node of
                     None \<Rightarrow> lines
                   | Some c \<Rightarrow> pushOptionalObjectBlock ns lines ''enabled_when'' c 2);
          lines = (if length (children node) > 0
                   then lines @ [INDENT @ INDENT @ ''children: '' @
                                 formatArray ns (map JStr (children node)) 2]
                   else lines);
          lines = (if length (slots node) > 0
                   then lines @ [INDENT @ INDENT @ ''slots '' @
                                 formatObject ns (strings_record (slots node)) 2]
                   else lines);
          lines = (if length (node_on node) > 0
                   then lines @ [INDENT @ INDENT @ ''on '' @
                                 formatObject ns (string_record (node_on node)) 2]
                   else lines)
      in lines @ [INDENT @ ''}''])"

definition emit_binding :: "('n \<Rightarrow> string) \<Rightarrow> string list \<Rightarrow> 'n DuiDslBinding \<Rightarrow> string list" where
  "emit_binding ns lines0 binding =
     (let lines = lines0 @ [''''];
          lines = lines @ [INDENT @ ''binding '' @ formatIdentifier (binding_id binding) @ '' {''];
          lines = lines @ [INDENT @ INDENT @ ''source: '' @ formatValue ns (JStr (source binding)) 2];
          lines = lines @ [INDENT @ INDENT @ ''select: '' @ formatValue ns (JStr (select binding)) 2];
          lines = pushOptionalObjectBlock ns lines ''args'' (args binding) 2;
          lines = pushOptionalObjectBlock ns lines ''cache'' (cache binding) 2
      in lines @ [INDENT @ ''}''])"

text \<open>The array \<^verbatim>\<open>lines\<close> just before it is joined.\<close>

definition document_lines :: "('n \<Rightarrow> string) \<Rightarrow> 'n DuiDslDocument \<Rightarrow> string list" where
  "document_lines ns document =
     (let lines = [];
          lines = lines @ [''surface '' @ formatIdentifier (surface_id (surface document)) @ '' {''];
          lines = lines @ [INDENT @ ''surface_meta { title: '' @
                           formatValue ns (JStr (surface_title (surface document))) 1 @
                           '', route: '' @
                           formatValue ns (JStr (surface_route (surface document))) 1 @ '' }''];
          lines = lines @ [INDENT @ ''meta { document_id: '' @
                           formatValue ns (JStr (document_id (meta document))) 1 @
                           '', revision: '' @ ns (revision (meta document)) @
                           '', created_by: '' @
                           formatValue ns (JStr (created_by (meta document))) 1 @ '' }''];
          lines = (if length (tokens (theme document)) = 0
                   then lines @ [INDENT @ ''theme { profile: '' @
                           formatValue ns (JStr (ThemeProfile_str (profile (theme document)))) 1 @
                           '' density: '' @
                           formatValue ns (JStr (Density_str (density (theme document)))) 1 @ '' }'']
                   else lines @ [INDENT @ ''theme { profile: '' @
                           formatValue ns (JStr (ThemeProfile_str (profile (theme document)))) 1 @
                           '' density: '' @
                           formatValue ns (JStr (Density_str (density (theme document)))) 1 @
                           '' tokens '' @
                           formatObject ns (string_record (tokens (theme document))) 1 @ '' }'']);
          lines = pushOptionalObjectBlock ns lines ''layout_constraints''
                    (layout_constraints document) 1;
          lines = pushOptionalObjectBlock ns lines ''state'' (locals (state document)) 1;
          lines = foldl (emit_action ns) lines (actions document);
          lines = foldl (emit_node ns) lines (nodes document);
          lines = foldl (emit_binding ns) lines (bindings document)
      in lines @ [''}''])"

definition serializeDuiDslDocument :: "('n \<Rightarrow> string) \<Rightarrow> 'n DuiDslDocument \<Rightarrow> string" where
  "serializeDuiDslDocument ns document = join [CHR 0x0A] (document_lines ns document) @ [CHR 0x0A]"

text \<open>What \<^verbatim>\<open>serializeDuiDslDocument\<close> reads of a document: every field but
  \<^verbatim>\<open>dsl_version\<close> and \<^verbatim>\<open>meta.created_at\<close>.\<close>

definition printed_fields ::
  "'n DuiDslDocument \<Rightarrow>
   DuiDslSurface \<times> (string \<times> 'n \<times> string) \<times> DuiDslTheme \<times> 'n jsobject \<times> 'n jsobject \<times>
   'n DuiDslAction list \<times> 'n DuiDslNode list \<times> 'n DuiDslBinding list" where
  "printed_fields document =
     (surface document,
      (document_id (meta document), revision (meta document), created_by (meta document)),
      theme document, layout_constraints document, locals (state document),
      actions document, nodes document, bindings document)"

section \<open>dslText.ts: the printer and the state of its module\<close>

text \<open>
  Outside its argument the printer touches only the constants of its module: the
  string \<^verbatim>\<open>INDENT\<close>, the set \<^verbatim>\<open>RESERVED_WORDS\<close>, of which it calls \<^verbatim>\<open>has\<close> alone, and the
  regular expression \<^verbatim>\<open>IDENTIFIER_RE\<close>, of which it calls \<^verbatim>\<open>test\<close>. It calls no clock, no
  random source and nothing that depends on a locale, and its array \<^verbatim>\<open>lines\<close> is created
  by each call. A regular expression is an object with a state: \<^verbatim>\<open>test\<close> reads its
  \<^verbatim>\<open>lastIndex\<close> and, when the expression has the flag \<^verbatim>\<open>g\<close> or \<^verbatim>\<open>y\<close>, writes it. So what
  one call of the printer can leave behind for the next is the state of
  \<^verbatim>\<open>IDENTIFIER_RE\<close>. The functions of this section are the printer once more, taking that
  state and returning it, with the calls of \<^verbatim>\<open>test\<close> in the order of the source.
\<close>

record RegExpObject =
  global_or_sticky :: bool
  lastIndex :: nat

text \<open>
  \<^verbatim>\<open>RegExp.prototype.test\<close> for a pattern that is anchored at both ends and has no flag
  \<^verbatim>\<open>m\<close>; \<open>pattern\<close> tells whether the whole string matches. Without \<^verbatim>\<open>g\<close> and \<^verbatim>\<open>y\<close> the
  search starts at 0 and \<^verbatim>\<open>lastIndex\<close> is left alone. With one of them it starts at
  \<^verbatim>\<open>lastIndex\<close>: the pattern can match from 0 only, and then up to the end of the string,
  which becomes the new \<^verbatim>\<open>lastIndex\<close>; a failure sets \<^verbatim>\<open>lastIndex\<close> to 0.
\<close>

definition RegExp_test ::
  "(string \<Rightarrow> bool) \<Rightarrow> RegExpObject \<Rightarrow> string \<Rightarrow> bool \<times> RegExpObject" where
  "RegExp_test pattern re s =
     (if global_or_sticky re
      then (if lastIndex re = 0 \<and> pattern s
            then (True, re\<lparr>lastIndex := length s\<rparr>)
            else (False, re\<lparr>lastIndex := 0\<rparr>))
      else (pattern s, re))"

text \<open>
  The expression as the literal \<^verbatim>\<open>/^[A-Za-z_][A-Za-z0-9_.-]*$/\<close> creates it: no flag, and
  \<^verbatim>\<open>lastIndex\<close> 0.
\<close>

definition IDENTIFIER_RE_object :: RegExpObject where
  "IDENTIFIER_RE_object = \<lparr>global_or_sticky = False, lastIndex = 0\<rparr>"

definition isIdentifier_st :: "RegExpObject \<Rightarrow> string \<Rightarrow> bool \<times> RegExpObject" where
  "isIdentifier_st re v =
     (case RegExp_test IDENTIFIER_RE re v of
        (matched, re) \<Rightarrow> (matched \<and> v \<notin> set RESERVED_WORDS, re))"

definition formatIdentifier_st :: "RegExpObject \<Rightarrow> string \<Rightarrow> string \<times> RegExpObject" where
  "formatIdentifier_st re v =
     (case isIdentifier_st re v of (b, re) \<Rightarrow> (if b then v else JSON_stringify v, re))"

definition formatKey_st :: "RegExpObject \<Rightarrow> string \<Rightarrow> string \<times> RegExpObject" where
  "formatKey_st re v =
     (case isIdentifier_st re v of (b, re) \<Rightarrow> (if b then v else JSON_stringify v, re))"

text \<open>
  \<^verbatim>\<open>formatValue\<close>, \<^verbatim>\<open>formatArray\<close> and \<^verbatim>\<open>formatObject\<close>; \<open>formatValues_st\<close> and
  \<open>formatEntries_st\<close> are the calls of \<^verbatim>\<open>map\<close> in the last two, one element after the
  other. When the text does not fit on a line the elements are printed a second time.
\<close>

function (sequential)
  formatValue_st ::
    "('n \<Rightarrow> string) \<Rightarrow> RegExpObject \<Rightarrow> 'n json \<Rightarrow> nat \<Rightarrow> string \<times> RegExpObject"
  and formatArray_st ::
    "('n \<Rightarrow> string) \<Rightarrow> RegExpObject \<Rightarrow> 'n json list \<Rightarrow> nat \<Rightarrow> string \<times> RegExpObject"
  and formatObject_st ::
    "('n \<Rightarrow> string) \<Rightarrow> RegExpObject \<Rightarrow> 'n jsobject \<Rightarrow> nat \<Rightarrow> string \<times> RegExpObject"
  and formatValues_st ::
    "('n \<Rightarrow> string) \<Rightarrow> RegExpObject \<Rightarrow> 'n json list \<Rightarrow> nat \<Rightarrow> string list \<times> RegExpObject"
  and formatEntries_st ::
    "('n \<Rightarrow> string) \<Rightarrow> RegExpObject \<Rightarrow> 'n jsobject \<Rightarrow> nat \<Rightarrow> string list \<times> RegExpObject"
where
  "formatValue_st ns re JNull indentLevel = (''null'', re)"
| "formatValue_st ns re (JStr v) indentLevel =
     (case isIdentifier_st re v of (b, re) \<Rightarrow> (if b then v else JSON_stringify v, re))"
| "formatValue_st ns re (JNum n) indentLevel = (ns n, re)"
| "formatValue_st ns re (JBool b) indentLevel = (if b then ''true'' else ''false'', re)"
| "formatValue_st ns re (JArr values) indentLevel = formatArray_st ns re values indentLevel"
| "formatValue_st ns re (JObj entries) indentLevel = formatObject_st ns re entries indentLevel"
| "formatArray_st ns re values indentLevel =
     (if length values = 0 then (''[]'', re)
      else
        case formatValues_st ns re values indentLevel of
          (inlineValues, re) \<Rightarrow>
            let inline = ''['' @ join '', '' inlineValues @ '']''
            in if length inline \<le> 88 \<and> list_all is_primitive values then (inline, re)
               else
                 let indent = repeat INDENT indentLevel;
                     innerIndent = repeat INDENT (indentLevel + 1)
                 in case formatValues_st ns re values (indentLevel + 1) of
                      (texts, re) \<Rightarrow>
                        let rows = map (\<lambda>t. innerIndent @ t) texts
                        in (''['' @ [CHR 0x0A] @ join ('','' @ [CHR 0x0A]) rows @ [CHR 0x0A] @
                              indent @ '']'', re))"
| "formatObject_st ns re entries indentLevel =
     (if length entries = 0 then (''{}'', re)
      else
        case formatEntries_st ns re entries indentLevel of
          (inlineParts, re) \<Rightarrow>
            let inline = ''{ '' @ join '', '' inlineParts @ '' }''
            in if length inline \<le> 100 \<and> list_all (\<lambda>(k, v). is_primitive v) entries
               then (inline, re)
               else
                 let indent = repeat INDENT indentLevel;
                     innerIndent = repeat INDENT (indentLevel + 1)
                 in case formatEntries_st ns re entries (indentLevel + 1) of
                      (texts, re) \<Rightarrow>
                        let rows = map (\<lambda>t. innerIndent @ t) texts
                        in (''{'' @ [CHR 0x0A] @ join ('','' @ [CHR 0x0A]) rows @ [CHR 0x0A] @
                              indent @ ''}'', re))"
| "formatValues_st ns re [] indentLevel = ([], re)"
| "formatValues_st ns re (v # vs) indentLevel =
     (case formatValue_st ns re v indentLevel of
        (t, re) \<Rightarrow>
          case formatValues_st ns re vs indentLevel of (ts, re) \<Rightarrow> (t # ts, re))"
| "formatEntries_st ns re [] indentLevel = ([], re)"
| "formatEntries_st ns re ((k, v) # es) indentLevel =
     (case formatKey_st re k of
        (kt, re) \<Rightarrow>
          case formatValue_st ns re v indentLevel of
            (vt, re) \<Rightarrow>
              case formatEntries_st ns re es indentLevel of
                (ts, re) \<Rightarrow> ((kt @ '': '' @ vt) # ts, re))"
  by pat_completeness auto

termination
  by (relation "measure (\<lambda>x. case x of
        Inl (Inl (ns, re, v, indentLevel)) \<Rightarrow> 2 * size v
      | Inl (Inr (ns, re, vs, indentLevel)) \<Rightarrow> 2 * size (JArr vs) - 1
      | Inr (Inl (ns, re, es, indentLevel)) \<Rightarrow> 2 * size (JObj es) - 1
      | Inr (Inr (Inl (ns, re, vs, indentLevel))) \<Rightarrow> 2 * size (JArr vs) - 2
      | Inr (Inr (Inr (ns, re, es, indentLevel))) \<Rightarrow> 2 * size (JObj es) - 2)")
     auto

declare formatArray_st.simps [simp del]
declare formatObject_st.simps [simp del]

text \<open>The blocks and the document; \<^verbatim>\<open>lines\<close> and the expression are passed through.\<close>

definition pushOptionalObjectBlock_st ::
  "('n \<Rightarrow> string) \<Rightarrow> string list \<times> RegExpObject \<Rightarrow> string \<Rightarrow> 'n jsobject \<Rightarrow> nat \<Rightarrow>
   string list \<times> RegExpObject" where
  "pushOptionalObjectBlock_st ns st label v indentLevel =
     (case st of
        (lines, re) \<Rightarrow>
          if length v = 0 then (lines, re)
          else
            let indent = repeat INDENT indentLevel
            in case formatObject_st ns re v indentLevel of
                 (t, re) \<Rightarrow> (lines @ [indent @ label @ '' '' @ t], re))"

definition emit_action_st ::
  "('n \<Rightarrow> string) \<Rightarrow> string list \<times> RegExpObject \<Rightarrow> 'n DuiDslAction \<Rightarrow>
   string list \<times> RegExpObject" where
  "emit_action_st ns st action =
     (case st of
        (lines0, re) \<Rightarrow>
          let lines = lines0 @ ['''']
          in case formatIdentifier_st re (action_id action) of
               (i, re) \<Rightarrow>
                 let lines = lines @ [INDENT @ ''action '' @ i @ '' {'']
                 in case formatValue_st ns re (JStr (action_type action)) 2 of
                      (t, re) \<Rightarrow>
                        let lines = lines @ [INDENT @ INDENT @ ''type: '' @ t]
                        in case pushOptionalObjectBlock_st ns (lines, re) ''params''
                                  (params action) 2 of
                             (lines, re) \<Rightarrow> (lines @ [INDENT @ ''}''], re))"

definition emit_node_st ::
  "('n \<Rightarrow> string) \<Rightarrow> string list \<times> RegExpObject \<Rightarrow> 'n DuiDslNode \<Rightarrow>
   string list \<times> RegExpObject" where
  "emit_node_st ns st node =
     (case st of
        (lines0, re) \<Rightarrow>
          let lines = lines0 @ ['''']
          in case formatIdentifier_st re (node_id node) of
               (i, re) \<Rightarrow>
                 case formatIdentifier_st re (node_type node) of
                   (t, re) \<Rightarrow>
                     let st = (lines @ [INDENT @ ''node '' @ i @ '': '' @ t @ '' {''], re);
                         st = pushOptionalObjectBlock_st ns st ''props'' (props node) 2;
                         st = pushOptionalObjectBlock_st ns st ''style'' (style node) 2;
                         st = pushOptionalObjectBlock_st ns st ''layout'' (layout node) 2;
                         st = pushOptionalObjectBlock_st ns st ''a11y'' (a11y node) 2;
                         st = (case visible_when node of
                                 None \<Rightarrow> st
                               | Some c \<Rightarrow> pushOptionalObjectBlock_st ns st ''visible_when'' c 2);
                         st = (case enabled_when node of
                                 None \<Rightarrow> st
                               | Some c \<Rightarrow> pushOptionalObjectBlock_st ns st ''enabled_when'' c 2);
                         st = (if length (children node) > 0
                               then case st of
                                      (lines, re) \<Rightarrow>
                                        case formatArray_st ns re (map JStr (children node)) 2 of
                                          (a, re) \<Rightarrow>
                                            (lines @ [INDENT @ INDENT @ ''children: '' @ a], re)
                               else st);
                         st = (if length (slots node) > 0
                               then case st of
                                      (lines, re) \<Rightarrow>
                                        case formatObject_st ns re (strings_record (slots node)) 2 of
                                          (a, re) \<Rightarrow>
                                            (lines @ [INDENT @ INDENT @ ''slots '' @ a], re)
                               else st);
                         st = (if length (node_on node) > 0
                               then case st of
                                      (lines, re) \<Rightarrow>
                                        case formatObject_st ns re (string_record (node_on node)) 2 of
                                          (a, re) \<Rightarrow>
                                            (lines @ [INDENT @ INDENT @ ''on '' @ a], re)
                               else st)
                     in case st of (lines, re) \<Rightarrow> (lines @ [INDENT @ ''}''], re))"

definition emit_binding_st ::
  "('n \<Rightarrow> string) \<Rightarrow> string list \<times> RegExpObject \<Rightarrow> 'n DuiDslBinding \<Rightarrow>
   string list \<times> RegExpObject" where
  "emit_binding_st ns st binding =
     (case st of
        (lines0, re) \<Rightarrow>
          let lines = lines0 @ ['''']
          in case formatIdentifier_st re (binding_id binding) of
               (i, re) \<Rightarrow>
                 let lines = lines @ [INDENT @ ''binding '' @ i @ '' {'']
                 in case formatValue_st ns re (JStr (source binding)) 2 of
                      (s, re) \<Rightarrow>
                        let lines = lines @ [INDENT @ INDENT @ ''source: '' @ s]
                        in case formatValue_st ns re (JStr (select binding)) 2 of
                             (t, re) \<Rightarrow>
                               let st = (lines @ [INDENT @ INDENT @ ''select: '' @ t], re);
                                   st = pushOptionalObjectBlock_st ns st ''args'' (args binding) 2;
                                   st = pushOptionalObjectBlock_st ns st ''cache'' (cache binding) 2
                               in case st of (lines, re) \<Rightarrow> (lines @ [INDENT @ ''}''], re))"

definition document_lines_st ::
  "('n \<Rightarrow> string) \<Rightarrow> RegExpObject \<Rightarrow> 'n DuiDslDocument \<Rightarrow> string list \<times> RegExpObject" where
  "document_lines_st ns re document =
     (let lines = []
      in case formatIdentifier_st re (surface_id (surface document)) of
        (i, re) \<Rightarrow>
      let lines = lines @ [''surface '' @ i @ '' {'']
      in case formatValue_st ns re (JStr (surface_title (surface document))) 1 of
        (title, re) \<Rightarrow>
      case formatValue_st ns re (JStr (surface_route (surface document))) 1 of
        (route, re) \<Rightarrow>
      let lines = lines @ [INDENT @ ''surface_meta { title: '' @ title @ '', route: '' @
                           route @ '' }'']
      in case formatValue_st ns re (JStr (document_id (meta document))) 1 of
        (did, re) \<Rightarrow>
      case formatValue_st ns re (JStr (created_by (meta document))) 1 of
        (creator, re) \<Rightarrow>
      let lines = lines @ [INDENT @ ''meta { document_id: '' @ did @ '', revision: '' @
                           ns (revision (meta document)) @ '', created_by: '' @ creator @ '' }'']
      in let st =
           (if length (tokens (theme document)) = 0
            then case formatValue_st ns re (JStr (ThemeProfile_str (profile (theme document)))) 1 of
                   (p, re) \<Rightarrow>
                 case formatValue_st ns re (JStr (Density_str (density (theme document)))) 1 of
                   (d, re) \<Rightarrow>
                     (lines @ [INDENT @ ''theme { profile: '' @ p @ '' density: '' @ d @ '' }''],
                      re)
            else case formatValue_st ns re (JStr (ThemeProfile_str (profile (theme document)))) 1 of
                   (p, re) \<Rightarrow>
                 case formatValue_st ns re (JStr (Density_str (density (theme document)))) 1 of
                   (d, re) \<Rightarrow>
                 case formatObject_st ns re (string_record (tokens (theme document))) 1 of
                   (t, re) \<Rightarrow>
                     (lines @ [INDENT @ ''theme { profile: '' @ p @ '' density: '' @ d @
                               '' tokens '' @ t @ '' }''], re));
          st = pushOptionalObjectBlock_st ns st ''layout_constraints''
                 (layout_constraints document) 1;
          st = pushOptionalObjectBlock_st ns st ''state'' (locals (state document)) 1;
          st = foldl (emit_action_st ns) st (actions document);
          st = foldl (emit_node_st ns) st (nodes document);
          st = foldl (emit_binding_st ns) st (bindings document)
      in case st of (lines, re) \<Rightarrow> (lines @ [''}''], re))"

definition serializeDuiDslDocument_st ::
  "('n \<Rightarrow> string) \<Rightarrow> RegExpObject \<Rightarrow> 'n DuiDslDocument \<Rightarrow> string \<times> RegExpObject" where
  "serializeDuiDslDocument_st ns re document =
     (case document_lines_st ns re document of
        (lines, re) \<Rightarrow> (join [CHR 0x0A] lines @ [CHR 0x0A], re))"

section \<open>The tokens of the printed text\<close>

text \<open>
  The tokens of the textual sugar: the six punctuation marks, quoted strings, and bare
  words (identifiers, numbers, \<^verbatim>\<open>true\<close>, \<^verbatim>\<open>false\<close>, \<^verbatim>\<open>null\<close>). The function \<open>lex\<close> reads
  a text into its tokens: white space separates, a quotation mark opens a string whose
  escapes are those of a JSON string literal. It is a reader of our own, by which the
  printer is shown below to keep every field it prints; the mode is the word or the
  string read so far, in reverse.
\<close>

datatype token = LBrace | RBrace | LBrack | RBrack | Colon | Comma | Str string | Word string

datatype lex_mode = In_word string | In_string string

definition is_delim :: "char \<Rightarrow> bool" where
  "is_delim c = (c = CHR '' '' \<or> c = CHR 0x0A \<or> c = CHR ''{'' \<or> c = CHR ''}'' \<or>
     c = CHR ''['' \<or> c = CHR '']'' \<or> c = CHR '':'' \<or> c = CHR '','' \<or> c = CHR 0x22)"

definition flush :: "string \<Rightarrow> token list \<Rightarrow> token list" where
  "flush w ts = (if w = [] then ts else Word (rev w) # ts)"

definition hex_value :: "char \<Rightarrow> nat" where
  "hex_value c =
     (if in_range CHR ''0'' CHR ''9'' c then of_char c - 48
      else if in_range CHR ''a'' CHR ''f'' c then of_char c - 87 else 0)"

definition unescape :: "char \<Rightarrow> char option" where
  "unescape e =
     (if e = CHR ''b'' then Some (CHR 0x08)
      else if e = CHR ''t'' then Some (CHR 0x09)
      else if e = CHR ''n'' then Some (CHR 0x0A)
      else if e = CHR ''f'' then Some (CHR 0x0C)
      else if e = CHR ''r'' then Some (CHR 0x0D)
      else if e = CHR 0x22 then Some (CHR 0x22)
      else if e = CHR 0x5C then Some (CHR 0x5C)
      else None)"

fun lex :: "lex_mode \<Rightarrow> string \<Rightarrow> token list option" where
  "lex (In_word w) [] = Some (flush w [])"
| "lex (In_string a) [] = None"
| "lex (In_word w) (c # cs) =
     (if c = CHR '' '' \<or> c = CHR 0x0A then map_option (flush w) (lex (In_word []) cs)
      else if c = CHR ''{'' then map_option (\<lambda>ts. flush w (LBrace # ts)) (lex (In_word []) cs)
      else if c = CHR ''}'' then map_option (\<lambda>ts. flush w (RBrace # ts)) (lex (In_word []) cs)
      else if c = CHR ''['' then map_option (\<lambda>ts. flush w (LBrack # ts)) (lex (In_word []) cs)
      else if c = CHR '']'' then map_option (\<lambda>ts. flush w (RBrack # ts)) (lex (In_word []) cs)
      else if c = CHR '':'' then map_option (\<lambda>ts. flush w (Colon # ts)) (lex (In_word []) cs)
      else if c = CHR '','' then map_option (\<lambda>ts. flush w (Comma # ts)) (lex (In_word []) cs)
      else if c = CHR 0x22 then map_option (flush w) (lex (In_string []) cs)
      else lex (In_word (c # w)) cs)"
| "lex (In_string a) (c # cs) =
     (if c = CHR 0x22 then map_option (\<lambda>ts. Str (rev a) # ts) (lex (In_word []) cs)
      else if c = CHR 0x5C then
        (case cs of
           [] \<Rightarrow> None
         | e # r \<Rightarrow>
             if e = CHR ''u'' then
               (case r of
                  z1 # z2 # x # y # r' \<Rightarrow>
                    lex (In_string (char_of (16 * hex_value x + hex_value y) # a)) r'
                | _ \<Rightarrow> None)
             else (case unescape e of
                     None \<Rightarrow> None
                   | Some ch \<Rightarrow> lex (In_string (ch # a)) r))
      else lex (In_string (c # a)) cs)"

text \<open>
  The tokens of a printed value, as \<^verbatim>\<open>formatValue\<close> lays them out: a string is a bare word
  when it is an identifier and a quoted string otherwise, the entries of an array or an
  object are separated by commas.
\<close>

fun commas :: "token list list \<Rightarrow> token list" where
  "commas [] = []"
| "commas [x] = x"
| "commas (x # y # ys) = x @ Comma # commas (y # ys)"

definition word_token :: "string \<Rightarrow> token" where
  "word_token s = (if isIdentifier s then Word s else Str s)"

fun tokens_of :: "('n \<Rightarrow> string) \<Rightarrow> 'n json \<Rightarrow> token list" where
  "tokens_of ns JNull = [Word ''null'']"
| "tokens_of ns (JBool b) = [Word (if b then ''true'' else ''false'')]"
| "tokens_of ns (JNum n) = [Word (ns n)]"
| "tokens_of ns (JStr s) = [word_token s]"
| "tokens_of ns (JArr vs) = LBrack # commas (map (tokens_of ns) vs) @ [RBrack]"
| "tokens_of ns (JObj es) =
     LBrace # commas (map (\<lambda>(k, v). word_token k # Colon # tokens_of ns v) es) @ [RBrace]"

text \<open>
  A text \<open>s\<close> \<^emph>\<open>lexes\<close> to the tokens \<open>ts\<close> when the reader, started afresh on \<open>s\<close> followed
  by any text that begins with a delimiter, yields \<open>ts\<close> and goes on afresh; it is
  \<^emph>\<open>closed\<close> when this holds for every following text. A number text is a word that
  cannot be taken for an identifier.
\<close>

definition bdry :: "string \<Rightarrow> bool" where
  "bdry r = (case r of [] \<Rightarrow> True | c # cs \<Rightarrow> is_delim c)"

definition push :: "token list \<Rightarrow> token list option \<Rightarrow> token list option" where
  "push ts x = map_option (\<lambda>u. ts @ u) x"

definition lexes :: "string \<Rightarrow> token list \<Rightarrow> bool" where
  "lexes s ts = (\<forall>r. bdry r \<longrightarrow> lex (In_word []) (s @ r) = push ts (lex (In_word []) r))"

definition closed :: "string \<Rightarrow> token list \<Rightarrow> bool" where
  "closed s ts = (\<forall>r. lex (In_word []) (s @ r) = push ts (lex (In_word []) r))"

definition number_text :: "string \<Rightarrow> bool" where
  "number_text s = (s \<noteq> [] \<and> (\<forall>c \<in> set s. \<not> is_delim c) \<and> \<not> ident_head (hd s))"

definition keyword :: "string \<Rightarrow> bool" where
  "keyword w = (w \<noteq> [] \<and> (\<forall>c \<in> set w. \<not> is_delim c))"

definition lines_lex :: "string list \<Rightarrow> token list \<Rightarrow> bool" where
  "lines_lex ls ts = closed (concat (map (\<lambda>l. l @ [CHR 0x0A]) ls)) ts"

text \<open>
  The tokens of a printed document, block by block as \<^verbatim>\<open>serializeDuiDslDocument\<close> emits
  them. An optional block is absent when its object is empty.
\<close>

definition opt_block :: "('n \<Rightarrow> string) \<Rightarrow> string \<Rightarrow> 'n jsobject \<Rightarrow> token list" where
  "opt_block ns label v = (if v = [] then [] else Word label # tokens_of ns (JObj v))"

definition cond_object :: "'n jsobject option \<Rightarrow> 'n jsobject" where
  "cond_object c = (case c of None \<Rightarrow> [] | Some v \<Rightarrow> v)"

definition action_tokens :: "('n \<Rightarrow> string) \<Rightarrow> 'n DuiDslAction \<Rightarrow> token list" where
  "action_tokens ns a =
     [Word ''action'', word_token (action_id a), LBrace,
      Word ''type'', Colon, word_token (action_type a)] @
     opt_block ns ''params'' (params a) @ [RBrace]"

definition children_block :: "('n \<Rightarrow> string) \<Rightarrow> string list \<Rightarrow> token list" where
  "children_block ns c =
     (if c = [] then [] else Word ''children'' # Colon # tokens_of ns (JArr (map JStr c)))"

definition node_tokens :: "('n \<Rightarrow> string) \<Rightarrow> 'n DuiDslNode \<Rightarrow> token list" where
  "node_tokens ns n =
     [Word ''node'', word_token (node_id n), Colon, word_token (node_type n), LBrace] @
     opt_block ns ''props'' (props n) @
     opt_block ns ''style'' (style n) @
     opt_block ns ''layout'' (layout n) @
     opt_block ns ''a11y'' (a11y n) @
     opt_block ns ''visible_when'' (cond_object (visible_when n)) @
     opt_block ns ''enabled_when'' (cond_object (enabled_when n)) @
     children_block ns (children n) @
     opt_block ns ''slots'' (strings_record (slots n)) @
     opt_block ns ''on'' (string_record (node_on n)) @ [RBrace]"

definition binding_tokens :: "('n \<Rightarrow> string) \<Rightarrow> 'n DuiDslBinding \<Rightarrow> token list" where
  "binding_tokens ns b =
     [Word ''binding'', word_token (binding_id b), LBrace,
      Word ''source'', Colon, word_token (source b),
      Word ''select'', Colon, word_token (select b)] @
     opt_block ns ''args'' (args b) @
     opt_block ns ''cache'' (cache b) @ [RBrace]"

definition header_tokens :: "('n \<Rightarrow> string) \<Rightarrow> 'n DuiDslDocument \<Rightarrow> token list" where
  "header_tokens ns d =
     [Word ''surface'', word_token (surface_id (surface d)), LBrace,
      Word ''surface_meta'', LBrace,
      Word ''title'', Colon, word_token (surface_title (surface d)), Comma,
      Word ''route'', Colon, word_token (surface_route (surface d)), RBrace,
      Word ''meta'', LBrace,
      Word ''document_id'', Colon, word_token (document_id (meta d)), Comma,
      Word ''revision'', Colon, Word (ns (revision (meta d))), Comma,
      Word ''created_by'', Colon, word_token (created_by (meta d)), RBrace,
      Word ''theme'', LBrace,
      Word ''profile'', Colon, word_token (ThemeProfile_str (profile (theme d))),
      Word ''density'', Colon, word_token (Density_str (density (theme d)))] @
     opt_block ns ''tokens'' (string_record (tokens (theme d))) @ [RBrace]"

definition document_tokens :: "('n \<Rightarrow> string) \<Rightarrow> 'n DuiDslDocument \<Rightarrow> token list" where
  "document_tokens ns d =
     header_tokens ns d @
     opt_block ns ''layout_constraints'' (layout_constraints d) @
     opt_block ns ''state'' (locals (state d)) @
     concat (map (action_tokens ns) (actions d)) @
     concat (map (node_tokens ns) (nodes d)) @
     concat (map (binding_tokens ns) (bindings d)) @ [RBrace]"

definition next_is :: "token \<Rightarrow> token list \<Rightarrow> bool" where
  "next_is t r = (case r of [] \<Rightarrow> False | x # xs \<Rightarrow> x = t)"

text \<open>
  What the text shows of a document: the fields the printer reads, a condition that is
  absent counting as an empty one (\<^verbatim>\<open>pushOptionalObjectBlock\<close> prints neither).
\<close>

definition printed_node :: "'n DuiDslNode \<Rightarrow> 'n DuiDslNode" where
  "printed_node n =
     n\<lparr>visible_when := Some (cond_object (visible_when n)),
       enabled_when := Some (cond_object (enabled_when n))\<rparr>"

definition text_fields ::
  "'n DuiDslDocument \<Rightarrow>
   DuiDslSurface \<times> (string \<times> 'n \<times> string) \<times> DuiDslTheme \<times> 'n jsobject \<times> 'n jsobject \<times>
   'n DuiDslAction list \<times> 'n DuiDslNode list \<times> 'n DuiDslBinding list" where
  "text_fields document = printed_fields (document\<lparr>nodes := map printed_node (nodes document)\<rparr>)"

section \<open>Reading the printed text\<close>

text \<open>
  The lines of a text, and the label of a block that opens at the first indentation
  level: a line that starts with one \<^verbatim>\<open>INDENT\<close> followed by a keyword of lower-case
  letters and underscores.
\<close>

fun split_lines :: "string \<Rightarrow> string list" where
  "split_lines [] = [[]]"
| "split_lines (c # cs) =
     (if c = CHR 0x0A then [] # split_lines cs
      else (case split_lines cs of [] \<Rightarrow> [[c]] | l # ls \<Rightarrow> (c # l) # ls))"

definition is_label_char :: "char \<Rightarrow> bool" where
  "is_label_char c = (in_range CHR ''a'' CHR ''z'' c \<or> c = CHR ''_'')"

definition block_label :: "string \<Rightarrow> string option" where
  "block_label l =
     (case l of
        c1 # c2 # c3 # rest \<Rightarrow>
          if c1 = CHR '' '' \<and> c2 = CHR '' '' \<and> is_label_char c3
          then Some (takeWhile is_label_char (c3 # rest)) else None
      | _ \<Rightarrow> None)"

definition block_labels :: "string \<Rightarrow> string list" where
  "block_labels text = List.map_filter block_label (split_lines text)"

definition entry_labels :: "string \<Rightarrow> string list" where
  "entry_labels e = List.map_filter block_label (split_lines e)"

definition lines_labels :: "string list \<Rightarrow> string list" where
  "lines_labels ls = concat (map entry_labels ls)"

text \<open>
  Continuation lines: \<open>starts k l\<close> says that \<open>l\<close> begins with \<open>k\<close> spaces followed by
  a space or a closing bracket; \<open>cont_ok k s\<close> says that every line of \<open>s\<close> after its
  first one does.
\<close>

fun starts :: "nat \<Rightarrow> string \<Rightarrow> bool" where
  "starts k [] = False"
| "starts 0 (c # cs) = (c = CHR '' '' \<or> c = CHR '']'' \<or> c = CHR ''}'')"
| "starts (Suc k) (c # cs) = (c = CHR '' '' \<and> starts k cs)"

fun cont_ok :: "nat \<Rightarrow> string \<Rightarrow> bool" where
  "cont_ok k [] = True"
| "cont_ok k (c # cs) = ((c \<noteq> CHR 0x0A \<or> starts k cs) \<and> cont_ok k cs)"

text \<open>
  The block order of the sugar grammar, in the words of the specification:
  \<^verbatim>\<open>meta theme state? node+ binding* action*\<close>, read on the labels of the grammar's
  own blocks.
\<close>

definition grammar_keywords :: "string list" where
  "grammar_keywords = [''meta'', ''theme'', ''state'', ''node'', ''binding'', ''action'']"

definition grammar_blocks :: "string list \<Rightarrow> string list" where
  "grammar_blocks ls = filter (\<lambda>l. l \<in> set grammar_keywords) ls"

definition grammar_block_order :: "string list \<Rightarrow> bool" where
  "grammar_block_order ls =
     (case ls of
        m # t # rest \<Rightarrow>
          m = ''meta'' \<and> t = ''theme'' \<and>
          (let r = (case rest of [] \<Rightarrow> rest | s # r' \<Rightarrow> if s = ''state'' then r' else rest)
           in (case r of [] \<Rightarrow> False | n # r' \<Rightarrow> n = ''node'') \<and>
              dropWhile (\<lambda>l. l = ''action'')
                (dropWhile (\<lambda>l. l = ''binding'') (dropWhile (\<lambda>l. l = ''node'') r)) = [])
      | _ \<Rightarrow> False)"

section \<open>types.ts: the manifest and the responses of the backend\<close>

datatype Zone = Zone_header | Zone_sidebar | Zone_content | Zone_footer

datatype WidgetKind =
    Kind_kpi | Kind_table | Kind_activity | Kind_chart | Kind_card
  | Kind_list | Kind_panel | Kind_tabs | Kind_form

type_synonym ThemeConfig = DuiDslTheme

record 'n WidgetConfig =
  widget_id :: string
  widget_title :: string
  kind :: WidgetKind
  zone :: Zone
  capability_id :: string
  protected :: bool
  template_id :: "string option"
  widget_props :: "'n jsobject"

record 'n SectionConfig =
  section_id :: string
  section_title :: string
  section_zone :: Zone
  child_widget_ids :: "string list"
  section_layout :: "'n jsobject"

record 'n UiManifest =
  schema_version :: nat
  manifest_id :: string
  manifest_revision :: 'n
  manifest_created_at :: string
  manifest_theme :: ThemeConfig
  widgets :: "'n WidgetConfig list"
  sections :: "'n SectionConfig list"
  manifest_layout_constraints :: "'n jsobject"
  metadata :: "(string \<times> string) list"

datatype DuiIssueSeverity = Severity_error | Severity_warning

record DuiDslValidationIssue =
  severity :: DuiIssueSeverity
  code :: string
  message :: string
  path :: string

record 'n DuiDslValidationResult =
  valid :: bool
  errors :: "DuiDslValidationIssue list"
  warnings :: "DuiDslValidationIssue list"
  stats :: "(string \<times> 'n) list"

record 'n DuiDslValidateResponse =
  validate_result :: "'n DuiDslValidationResult"
  validate_compiled_manifest :: "'n UiManifest option"

record 'n DuiDslParseResponse =
  parse_document :: "'n DuiDslDocument"
  parse_validation_result :: "'n DuiDslValidationResult"
  parse_compiled_manifest :: "'n UiManifest option"

record 'n DuiDslIntentResponse =
  intent_document :: "'n DuiDslDocument"
  intent_validation_result :: "'n DuiDslValidationResult"
  intent_preview_manifest :: "'n UiManifest option"
  intent_warnings :: "string list"

record 'n DuiDslCommitResponse =
  commit_document :: "'n DuiDslDocument"
  commit_manifest :: "'n UiManifest"

section \<open>App.tsx: the dashboard renderer\<close>

text \<open>
  A JSON number is a finite double, hence a rational, and \<^verbatim>\<open>Math.min\<close> and
  \<^verbatim>\<open>Math.max\<close> are exact on them: the manifest of the renderer has rational numbers.
  Reading the property \<^verbatim>\<open>max_columns\<close> of a record is a lookup among its entries.
\<close>

definition ZONES :: "Zone list" where
  "ZONES = [Zone_header, Zone_sidebar, Zone_content, Zone_footer]"

definition maxColumns :: "rat UiManifest \<Rightarrow> rat" where
  "maxColumns manifest =
     (case map_of (manifest_layout_constraints manifest) ''max_columns'' of
        Some (JNum maxColumnsRaw) \<Rightarrow> max 1 (min 4 maxColumnsRaw)
      | _ \<Rightarrow> 2)"

text \<open>
  \<^verbatim>\<open>new Map(widgets.map((widget) => [widget.id, widget])).get(widgetId)\<close>: of two
  widgets with one id the later one stays in the map.
\<close>

definition widgetMap_get :: "'n WidgetConfig list \<Rightarrow> string \<Rightarrow> 'n WidgetConfig option" where
  "widgetMap_get ws widgetId = map_of (rev (map (\<lambda>widget. (widget_id widget, widget)) ws)) widgetId"

definition zone_widgets :: "'n UiManifest \<Rightarrow> Zone \<Rightarrow> 'n WidgetConfig list" where
  "zone_widgets manifest z = filter (\<lambda>widget. zone widget = z) (widgets manifest)"

definition zone_sections :: "'n UiManifest \<Rightarrow> Zone \<Rightarrow> 'n SectionConfig list" where
  "zone_sections manifest z = filter (\<lambda>section. section_zone section = z) (sections manifest)"

definition sectionBlocks ::
  "'n UiManifest \<Rightarrow> Zone \<Rightarrow> ('n SectionConfig \<times> 'n WidgetConfig list) list" where
  "sectionBlocks manifest z =
     map (\<lambda>section.
            (section, List.map_filter (widgetMap_get (zone_widgets manifest z))
                        (child_widget_ids section)))
         (zone_sections manifest z)"

definition usedWidgetIds :: "'n UiManifest \<Rightarrow> Zone \<Rightarrow> string list" where
  "usedWidgetIds manifest z =
     concat (map (\<lambda>(section, children). map widget_id children) (sectionBlocks manifest z))"

definition looseWidgets :: "'n UiManifest \<Rightarrow> Zone \<Rightarrow> 'n WidgetConfig list" where
  "looseWidgets manifest z =
     filter (\<lambda>widget. widget_id widget \<notin> set (usedWidgetIds manifest z)) (zone_widgets manifest z)"

section \<open>App.tsx: the state of the DSL editor\<close>

text \<open>
  The hooks of \<^verbatim>\<open>App\<close> that the DSL handlers read or write, and \<open>pending\<close>: the
  request an asynchronous handler is waiting for, with what it sent. The hooks of the
  pages and lessons play no part in the handlers modelled here.
\<close>

datatype 'n pending =
    P_Generate string
  | P_Parse string
  | P_Validate "'n DuiDslDocument"
  | P_Commit "'n DuiDslDocument"
  | P_CommitHistory
  | P_LoadCurrent
  | P_Revert 'n
  | P_RevertHistory

record 'n AppState =
  manifest :: "'n UiManifest option"
  previewManifest :: "'n UiManifest option"
  prompt :: string
  error :: "string option"
  busy :: bool
  revisions :: "'n UiManifest list"
  dslRevisions :: "'n DuiDslDocument list"
  dslSource :: string
  dslSourceDirty :: bool
  dslDraft :: "'n DuiDslDocument option"
  dslWarnings :: "string list"
  dslValidationErrors :: "DuiDslValidationIssue list"
  dslValidationWarnings :: "DuiDslValidationIssue list"
  dslValidationValid :: "bool option"
  pending :: "'n pending option"

text \<open>\<^verbatim>\<open>s.trim()\<close> is truthy when \<open>s\<close> has a code unit that is not white space.\<close>

definition is_white_space :: "char \<Rightarrow> bool" where
  "is_white_space c =
     (in_range CHR 0x09 CHR 0x0D c \<or> c = CHR 0x20 \<or> c = CHR 0xA0)"

definition trim_nonempty :: "string \<Rightarrow> bool" where
  "trim_nonempty s = (\<not> list_all is_white_space s)"

definition resetDslValidationState :: "'n AppState \<Rightarrow> 'n AppState" where
  "resetDslValidationState s =
     s\<lparr>dslValidationValid := None, dslValidationErrors := [], dslValidationWarnings := []\<rparr>"

definition applyDslValidationState ::
  "bool \<Rightarrow> DuiDslValidationIssue list \<Rightarrow> DuiDslValidationIssue list \<Rightarrow> 'n AppState \<Rightarrow> 'n AppState" where
  "applyDslValidationState v es ws s =
     s\<lparr>dslValidationValid := Some v, dslValidationErrors := es, dslValidationWarnings := ws\<rparr>"

text \<open>\<^verbatim>\<open>olderRevision\<close>, and the \<^verbatim>\<open>disabled\<close> attribute of each button.\<close>

definition olderRevision :: "'n AppState \<Rightarrow> 'n option" where
  "olderRevision s =
     (if manifest s = None \<or> length (revisions s) < 2 then None
      else Some (manifest_revision (revisions s ! (length (revisions s) - 2))))"

definition Generate_disabled :: "'n AppState \<Rightarrow> bool" where
  "Generate_disabled s = busy s"

definition Parse_disabled :: "'n AppState \<Rightarrow> bool" where
  "Parse_disabled s = (busy s \<or> \<not> trim_nonempty (dslSource s))"

definition Validate_disabled :: "'n AppState \<Rightarrow> bool" where
  "Validate_disabled s = (busy s \<or> dslDraft s = None \<or> dslSourceDirty s)"

definition Commit_disabled :: "'n AppState \<Rightarrow> bool" where
  "Commit_disabled s =
     (busy s \<or> dslDraft s = None \<or> dslValidationValid s = Some False \<or> dslSourceDirty s)"

definition LoadCurrent_disabled :: "'n AppState \<Rightarrow> bool" where
  "LoadCurrent_disabled s = busy s"

definition Revert_disabled :: "('n::zero) AppState \<Rightarrow> bool" where
  "Revert_disabled s = (busy s \<or> olderRevision s = None \<or> olderRevision s = Some 0)"

text \<open>
  Each asynchronous handler up to its first \<^verbatim>\<open>await\<close>: the early return, then
  \<^verbatim>\<open>setBusy(true)\<close>, \<^verbatim>\<open>setError(null)\<close> and the request.
\<close>

definition send :: "'n pending \<Rightarrow> 'n AppState \<Rightarrow> 'n AppState" where
  "send p s = s\<lparr>busy := True, error := None, pending := Some p\<rparr>"

definition handleGenerateDslFromPrompt :: "'n AppState \<Rightarrow> 'n AppState" where
  "handleGenerateDslFromPrompt s =
     (if \<not> trim_nonempty (prompt s) then s else send (P_Generate (prompt s)) s)"

definition handleParseDslSource :: "'n AppState \<Rightarrow> 'n AppState" where
  "handleParseDslSource s =
     (if \<not> trim_nonempty (dslSource s) then s else send (P_Parse (dslSource s)) s)"

definition handleValidateDslDocument :: "'n AppState \<Rightarrow> 'n AppState" where
  "handleValidateDslDocument s =
     (case dslDraft s of None \<Rightarrow> s | Some d \<Rightarrow> send (P_Validate d) s)"

definition handleCommitDslDocument :: "'n AppState \<Rightarrow> 'n AppState" where
  "handleCommitDslDocument s =
     (case dslDraft s of None \<Rightarrow> s | Some d \<Rightarrow> send (P_Commit d) s)"

definition handleLoadCurrentDsl :: "'n AppState \<Rightarrow> 'n AppState" where
  "handleLoadCurrentDsl s = send P_LoadCurrent s"

definition handleRevertManifest :: "('n::zero) AppState \<Rightarrow> 'n AppState" where
  "handleRevertManifest s =
     (case olderRevision s of
        None \<Rightarrow> s
      | Some r \<Rightarrow> if r = 0 then s else send (P_Revert r) s)"

text \<open>The rest of each handler, run when the awaited response arrives.\<close>

definition finish :: "'n AppState \<Rightarrow> 'n AppState" where
  "finish s = s\<lparr>busy := False, pending := None\<rparr>"

definition generated :: "('n \<Rightarrow> string) \<Rightarrow> 'n DuiDslIntentResponse \<Rightarrow> 'n AppState \<Rightarrow> 'n AppState" where
  "generated ns response s =
     finish
       ((applyDslValidationState
           (valid (intent_validation_result response))
           (errors (intent_validation_result response))
           (warnings (intent_validation_result response))
           (s\<lparr>dslDraft := Some (intent_document response),
              dslSource := serializeDuiDslDocument ns (intent_document response),
              dslSourceDirty := False,
              dslWarnings := intent_warnings response\<rparr>))
        \<lparr>previewManifest := intent_preview_manifest response\<rparr>)"

definition parsed :: "'n DuiDslParseResponse \<Rightarrow> 'n AppState \<Rightarrow> 'n AppState" where
  "parsed response s =
     finish
       ((applyDslValidationState
           (valid (parse_validation_result response))
           (errors (parse_validation_result response))
           (warnings (parse_validation_result response))
           (s\<lparr>dslDraft := Some (parse_document response),
              dslSourceDirty := False,
              dslWarnings := []\<rparr>))
        \<lparr>previewManifest := parse_compiled_manifest response\<rparr>)"

definition validated :: "'n DuiDslValidateResponse \<Rightarrow> 'n AppState \<Rightarrow> 'n AppState" where
  "validated response s =
     finish
       (let s1 = applyDslValidationState
                   (valid (validate_result response))
                   (errors (validate_result response))
                   (warnings (validate_result response)) s
        in case validate_compiled_manifest response of
             None \<Rightarrow> s1
           | Some m \<Rightarrow> s1\<lparr>previewManifest := Some m\<rparr>)"

definition committed :: "('n \<Rightarrow> string) \<Rightarrow> 'n DuiDslCommitResponse \<Rightarrow> 'n AppState \<Rightarrow> 'n AppState" where
  "committed ns response s =
     (resetDslValidationState
        (s\<lparr>manifest := Some (commit_manifest response),
           previewManifest := None,
           dslDraft := Some (commit_document response),
           dslSource := serializeDuiDslDocument ns (commit_document response),
           dslSourceDirty := False,
           dslWarnings := []\<rparr>))
     \<lparr>pending := Some P_CommitHistory\<rparr>"

definition commit_history_loaded ::
  "'n UiManifest list \<Rightarrow> 'n DuiDslDocument list \<Rightarrow> 'n AppState \<Rightarrow> 'n AppState" where
  "commit_history_loaded manifestHistory dslHistory s =
     finish (s\<lparr>revisions := manifestHistory, dslRevisions := dslHistory\<rparr>)"

definition current_loaded ::
  "('n \<Rightarrow> string) \<Rightarrow> 'n DuiDslDocument \<Rightarrow> 'n DuiDslDocument list \<Rightarrow> 'n AppState \<Rightarrow> 'n AppState" where
  "current_loaded ns currentDsl dslHistory s =
     finish
       ((resetDslValidationState
           (s\<lparr>dslDraft := Some currentDsl,
              dslSource := serializeDuiDslDocument ns currentDsl,
              dslSourceDirty := False,
              dslWarnings := []\<rparr>))
        \<lparr>dslRevisions := dslHistory, previewManifest := None\<rparr>)"

definition reverted :: "'n UiManifest \<Rightarrow> 'n AppState \<Rightarrow> 'n AppState" where
  "reverted revertedManifest s =
     s\<lparr>manifest := Some revertedManifest, previewManifest := None,
       pending := Some P_RevertHistory\<rparr>"

definition revert_history_loaded :: "'n UiManifest list \<Rightarrow> 'n AppState \<Rightarrow> 'n AppState" where
  "revert_history_loaded history s = finish (s\<lparr>revisions := history\<rparr>)"

definition failed :: "string \<Rightarrow> 'n AppState \<Rightarrow> 'n AppState" where
  "failed msg s = finish (s\<lparr>error := Some msg\<rparr>)"

definition clearPreview :: "'n AppState \<Rightarrow> 'n AppState" where
  "clearPreview s = (resetDslValidationState (s\<lparr>dslWarnings := []\<rparr>))\<lparr>previewManifest := None\<rparr>"

definition sourceChanged :: "string \<Rightarrow> 'n AppState \<Rightarrow> 'n AppState" where
  "sourceChanged v s = s\<lparr>dslSource := v, dslSourceDirty := True\<rparr>"

text \<open>
  What can happen to the page: a click on a button that is not disabled, an edit, or
  the arrival of the response (or the failure) an asynchronous handler waits for.
  \<open>step\<close> is \<open>None\<close> when the event cannot happen in the state.
\<close>

datatype 'n event =
    Click_Generate
  | Click_Parse
  | Click_Validate
  | Click_Commit
  | Click_LoadCurrent
  | Click_Revert
  | Click_ClearPreview
  | Edit_Source string
  | Edit_Prompt string
  | Resolve_Generate "'n DuiDslIntentResponse"
  | Resolve_Parse "'n DuiDslParseResponse"
  | Resolve_Validate "'n DuiDslValidateResponse"
  | Resolve_Commit "'n DuiDslCommitResponse"
  | Resolve_CommitHistory "'n UiManifest list" "'n DuiDslDocument list"
  | Resolve_LoadCurrent "'n DuiDslDocument" "'n DuiDslDocument list"
  | Resolve_Revert "'n UiManifest"
  | Resolve_RevertHistory "'n UiManifest list"
  | Reject string

definition awaiting :: "'n AppState \<Rightarrow> 'n pending \<Rightarrow> bool" where
  "awaiting s p = (pending s = Some p)"

fun is_P_Generate :: "'n pending option \<Rightarrow> bool" where
  "is_P_Generate (Some (P_Generate p)) = True"
| "is_P_Generate x = False"

fun is_P_Parse :: "'n pending option \<Rightarrow> bool" where
  "is_P_Parse (Some (P_Parse p)) = True"
| "is_P_Parse x = False"

fun is_P_Validate :: "'n pending option \<Rightarrow> bool" where
  "is_P_Validate (Some (P_Validate d)) = True"
| "is_P_Validate x = False"

fun is_P_Commit :: "'n pending option \<Rightarrow> bool" where
  "is_P_Commit (Some (P_Commit d)) = True"
| "is_P_Commit x = False"

fun is_P_Revert :: "'n pending option \<Rightarrow> bool" where
  "is_P_Revert (Some (P_Revert r)) = True"
| "is_P_Revert x = False"

fun step :: "('n \<Rightarrow> string) \<Rightarrow> ('n::zero) event \<Rightarrow> 'n AppState \<Rightarrow> 'n AppState option" where
  "step ns Click_Generate s =
     (if Generate_disabled s then None else Some (handleGenerateDslFromPrompt s))"
| "step ns Click_Parse s =
     (if Parse_disabled s then None else Some (handleParseDslSource s))"
| "step ns Click_Validate s =
     (if Validate_disabled s then None else Some (handleValidateDslDocument s))"
| "step ns Click_Commit s =
     (if Commit_disabled s then None else Some (handleCommitDslDocument s))"
| "step ns Click_LoadCurrent s =
     (if LoadCurrent_disabled s then None else Some (handleLoadCurrentDsl s))"
| "step ns Click_Revert s =
     (if Revert_disabled s then None else Some (handleRevertManifest s))"
| "step ns Click_ClearPreview s = Some (clearPreview s)"
| "step ns (Edit_Source v) s = Some (sourceChanged v s)"
| "step ns (Edit_Prompt v) s = Some (s\<lparr>prompt := v\<rparr>)"
| "step ns (Resolve_Generate r) s =
     (if is_P_Generate (pending s) then Some (generated ns r s) else None)"
| "step ns (Resolve_Parse r) s =
     (if is_P_Parse (pending s) then Some (parsed r s) else None)"
| "step ns (Resolve_Validate r) s =
     (if is_P_Validate (pending s) then Some (validated r s) else None)"
| "step ns (Resolve_Commit r) s =
     (if is_P_Commit (pending s) then Some (committed ns r s) else None)"
| "step ns (Resolve_CommitHistory mh dh) s =
     (if awaiting s P_CommitHistory then Some (commit_history_loaded mh dh s) else None)"
| "step ns (Resolve_LoadCurrent d dh) s =
     (if awaiting s P_LoadCurrent then Some (current_loaded ns d dh s) else None)"
| "step ns (Resolve_Revert m) s =
     (if is_P_Revert (pending s) then Some (reverted m s) else None)"
| "step ns (Resolve_RevertHistory h) s =
     (if awaiting s P_RevertHistory then Some (revert_history_loaded h s) else None)"
| "step ns (Reject msg) s =
     (if pending s = None then None else Some (failed msg s))"

fun run :: "('n \<Rightarrow> string) \<Rightarrow> ('n::zero) event list \<Rightarrow> 'n AppState \<Rightarrow> 'n AppState option" where
  "run ns [] s = Some s"
| "run ns (e # es) s = (case step ns e s of None \<Rightarrow> None | Some s' \<Rightarrow> run ns es s')"

text \<open>
  The state once the first effect of \<^verbatim>\<open>App\<close> has loaded the current manifest and
  document: the page shows its buttons from then on. Every other hook has its initial
  value; the initial prompt, a Cyrillic sentence in the source, is the parameter \<open>p\<close>.
\<close>

definition loaded ::
  "('n \<Rightarrow> string) \<Rightarrow> string \<Rightarrow> 'n UiManifest \<Rightarrow> 'n UiManifest list \<Rightarrow>
   'n DuiDslDocument \<Rightarrow> 'n DuiDslDocument list \<Rightarrow> 'n AppState" where
  "loaded ns p current history currentDsl dslHistory =
     \<lparr>manifest = Some current, previewManifest = None,
      prompt = p, error = None, busy = False,
      revisions = history, dslRevisions = dslHistory,
      dslSource = serializeDuiDslDocument ns currentDsl, dslSourceDirty = False,
      dslDraft = Some currentDsl, dslWarnings = [],
      dslValidationErrors = [], dslValidationWarnings = [], dslValidationValid = None,
      pending = None\<rparr>"

text \<open>
  In the words of the specification: the verdict of the most recent validation result
  for the current draft, read off the events; \<open>None\<close> when the current draft has no
  validation result. A response that brings a document with its validation result
  (generate, parse) or a validation result alone (validate) sets it; a response that
  replaces the draft without one (load, commit) clears it.
\<close>

fun most_recent_validation :: "'n event list \<Rightarrow> bool option \<Rightarrow> bool option" where
  "most_recent_validation [] v = v"
| "most_recent_validation (Resolve_Generate r # es) v =
     most_recent_validation es (Some (valid (intent_validation_result r)))"
| "most_recent_validation (Resolve_Parse r # es) v =
     most_recent_validation es (Some (valid (parse_validation_result r)))"
| "most_recent_validation (Resolve_Validate r # es) v =
     most_recent_validation es (Some (valid (validate_result r)))"
| "most_recent_validation (Resolve_Commit r # es) v = most_recent_validation es None"
| "most_recent_validation (Resolve_LoadCurrent d dh # es) v = most_recent_validation es None"
| "most_recent_validation (e # es) v = most_recent_validation es v"

section \<open>The revision engine of the backend\<close>

text \<open>
  Modelled from the spec: the patch and revision engine (\<^verbatim>\<open>apply\<close>, \<^verbatim>\<open>revert\<close>) is
  code of the backend; the frontend only calls it (\<^verbatim>\<open>revertRevision\<close>). A surface has
  its revisions, keyed by revision number, and the number of the current one. What a
  single patch operation does to a document, and the validator, are parameters.
\<close>

datatype RevisionStatus = Status_draft | Status_committed | Status_rejected

record 'd Revision =
  rev_document :: 'd
  compiled_manifest_hash :: "string option"
  rev_status :: RevisionStatus
  rev_created_at :: string

record 'd RevisionStore =
  stored :: "nat \<Rightarrow> 'd Revision option"
  current_revision :: nat

datatype RevisionError = UnknownRevision

text \<open>
  Modelled from the spec: \<^verbatim>\<open>revert(target_revision)\<close> creates a new revision whose
  document equals the target's and makes it the current one.
\<close>

definition revert ::
  "nat \<Rightarrow> string \<Rightarrow> 'd RevisionStore \<Rightarrow> RevisionError + ('d Revision \<times> 'd RevisionStore)" where
  "revert target_revision now st =
     (case stored st target_revision of
        None \<Rightarrow> Inl UnknownRevision
      | Some r \<Rightarrow>
          let n = current_revision st + 1;
              r' = \<lparr>rev_document = rev_document r,
                    compiled_manifest_hash = compiled_manifest_hash r,
                    rev_status = Status_committed, rev_created_at = now\<rparr>
          in Inr (r', st\<lparr>stored := (stored st)(n \<mapsto> r'), current_revision := n\<rparr>))"

text \<open>
  Modelled from the spec: the errors of \<^verbatim>\<open>apply\<close> (\<^verbatim>\<open>PatchError{op_index, reason}\<close>,
  the rejection of an invalid aggregate, \<^verbatim>\<open>ConcurrencyConflict\<close>) and the stored state
  of a surface, which the backend keeps.
\<close>

datatype 'r ApplyError =
    PatchError nat 'r
  | InvalidAggregate
  | ConcurrencyConflict

record 'd Surface =
  current_document :: 'd
  base_revision :: nat

text \<open>
  Modelled from the spec: the operations of a batch run in order on a working copy of
  the document; the first one that fails aborts the batch with its index and reason.
  The backend's code for it is not among the sources.
\<close>

fun apply_ops ::
  "('op \<Rightarrow> 'd \<Rightarrow> 'r + 'd) \<Rightarrow> nat \<Rightarrow> 'op list \<Rightarrow> 'd \<Rightarrow> 'r ApplyError + 'd" where
  "apply_ops apply_op i [] d = Inr d"
| "apply_ops apply_op i (op # ops) d =
     (case apply_op op d of
        Inl reason \<Rightarrow> Inl (PatchError i reason)
      | Inr d' \<Rightarrow> apply_ops apply_op (i + 1) ops d')"

text \<open>
  Modelled from the spec: \<^verbatim>\<open>apply(current_document, ops, expected_base_revision)\<close>
  of the backend's patch engine. A stale base revision is a conflict; the result of the
  batch must pass the validator; only then is it stored, as the next revision.
\<close>

definition apply_patch ::
  "('op \<Rightarrow> 'd \<Rightarrow> 'r + 'd) \<Rightarrow> ('d \<Rightarrow> bool) \<Rightarrow> 'd Surface \<Rightarrow> 'op list \<Rightarrow> nat \<Rightarrow>
   ('r ApplyError + 'd) \<times> 'd Surface" where
  "apply_patch apply_op validate st ops expected_base_revision =
     (if expected_base_revision \<noteq> base_revision st then (Inl ConcurrencyConflict, st)
      else
        case apply_ops apply_op 0 ops (current_document st) of
          Inl e \<Rightarrow> (Inl e, st)
        | Inr d' \<Rightarrow>
            if validate d'
            then (Inr d', \<lparr>current_document = d', base_revision = base_revision st + 1\<rparr>)
            else (Inl InvalidAggregate, st))"

section \<open>Example inputs\<close>

text \<open>The document of the architecture notes, completed to one node tree, one binding and
  one action.\<close>

definition root_node :: "int DuiDslNode" where
  "root_node =
     \<lparr>node_id = ''root'', node_type = ''layout.page'',
      props = [(''maxWidth'', JStr ''1280px'')], style = [], layout = [], a11y = [],
      visible_when = None, enabled_when = None,
      children = [''content''], slots = [], node_on = [(''onMount'', ''act_open_lesson'')]\<rparr>"

definition content_node :: "int DuiDslNode" where
  "content_node =
     \<lparr>node_id = ''content'', node_type = ''layout.stack'',
      props = [(''gap'', JNum 12)], style = [], layout = [], a11y = [],
      visible_when = None, enabled_when = None,
      children = [], slots = [], node_on = []\<rparr>"

definition learning_path_binding :: "int DuiDslBinding" where
  "learning_path_binding =
     \<lparr>binding_id = ''bind_learning_path'', source = ''capability:math.learning_path'',
      select = ''$.items'', args = [(''limit'', JNum 10)], cache = [(''ttl_sec'', JNum 30)]\<rparr>"

definition open_lesson_action :: "int DuiDslAction" where
  "open_lesson_action =
     \<lparr>action_id = ''act_open_lesson'', action_type = ''nav.open_surface'',
      params = [(''surface_id'', JStr ''math_lms.lesson'')]\<rparr>"

definition sample_document :: "int DuiDslDocument" where
  "sample_document =
     \<lparr>dsl_version = ''dui-lang/1.0'',
      surface = \<lparr>surface_id = ''math_lms.dashboard'', surface_title = ''Math Dashboard'',
                 surface_route = ''/dashboard''\<rparr>,
      meta = \<lparr>document_id = ''doc_7f8d'', revision = 12,
              created_at = ''2026-02-08T18:30:00Z'', created_by = ''agent''\<rparr>,
      theme = \<lparr>profile = Profile_minimal, density = Density_compact,
               tokens = [(''bg'', ''#f8fafc''), (''radius'', ''12px'')]\<rparr>,
      state = \<lparr>locals = [(''selectedLessonId'', JStr ''lesson-linear-equations'')]\<rparr>,
      nodes = [root_node, content_node],
      bindings = [learning_path_binding],
      actions = [open_lesson_action],
      layout_constraints = []\<rparr>"

text \<open>The same document stamped one second later.\<close>

definition sample_document_later :: "int DuiDslDocument" where
  "sample_document_later =
     sample_document\<lparr>meta := (meta sample_document)\<lparr>created_at := ''2026-02-08T18:30:01Z''\<rparr>\<rparr>"

text \<open>
  A manifest with two widgets in the content zone, one in the sidebar, and a section of
  the content zone that names one widget of its zone, the sidebar's widget and a widget
  that does not exist. It asks for five columns.
\<close>

definition progress_widget :: "('n::numeral) WidgetConfig" where
  "progress_widget =
     \<lparr>widget_id = ''progress'', widget_title = ''Progress'', kind = Kind_kpi,
      zone = Zone_content, capability_id = ''math.progress_overview'', protected = True,
      template_id = None, widget_props = []\<rparr>"

definition path_widget :: "('n::numeral) WidgetConfig" where
  "path_widget =
     \<lparr>widget_id = ''path'', widget_title = ''Learning path'', kind = Kind_list,
      zone = Zone_content, capability_id = ''math.learning_path'', protected = False,
      template_id = None, widget_props = []\<rparr>"

definition streak_widget :: "('n::numeral) WidgetConfig" where
  "streak_widget =
     \<lparr>widget_id = ''streak'', widget_title = ''Streak'', kind = Kind_panel,
      zone = Zone_sidebar, capability_id = ''math.progress_overview'', protected = False,
      template_id = Some ''study_streak_panel'', widget_props = []\<rparr>"

definition practice_section :: "('n::numeral) SectionConfig" where
  "practice_section =
     \<lparr>section_id = ''practice'', section_title = ''Practice'', section_zone = Zone_content,
      child_widget_ids = [''path'', ''streak'', ''missing''], section_layout = []\<rparr>"

definition sample_manifest :: "('n::numeral) UiManifest" where
  "sample_manifest =
     \<lparr>schema_version = 1, manifest_id = ''manifest_1'', manifest_revision = 3,
      manifest_created_at = ''2026-02-08T18:00:00Z'',
      manifest_theme = \<lparr>profile = Profile_default, density = Density_comfortable, tokens = []\<rparr>,
      widgets = [progress_widget, path_widget, streak_widget],
      sections = [practice_section],
      manifest_layout_constraints = [(''max_columns'', JNum 5)],
      metadata = []\<rparr>"

text \<open>
  The page showing the example document, and a response to \<^verbatim>\<open>Generate DSL\<close> whose
  validation result has one error.
\<close>

definition sample_state :: "int AppState" where
  "sample_state = loaded String_int ''compact'' sample_manifest [] sample_document []"

definition unknown_type_issue :: DuiDslValidationIssue where
  "unknown_type_issue =
     \<lparr>severity = Severity_error, code = ''unknown_node_type'',
      message = ''Unknown node type'', path = ''nodes[1].type''\<rparr>"

definition low_contrast_issue :: DuiDslValidationIssue where
  "low_contrast_issue =
     \<lparr>severity = Severity_warning, code = ''low_contrast'',
      message = ''Contrast below AA'', path = ''theme.tokens.bg''\<rparr>"

definition invalid_intent_response :: "int DuiDslIntentResponse" where
  "invalid_intent_response =
     \<lparr>intent_document = sample_document_later,
      intent_validation_result =
        \<lparr>valid = False, errors = [unknown_type_issue], warnings = [], stats = []\<rparr>,
      intent_preview_manifest = None,
      intent_warnings = []\<rparr>"

definition warned_validate_response :: "int DuiDslValidateResponse" where
  "warned_validate_response =
     \<lparr>validate_result =
        \<lparr>valid = True, errors = [], warnings = [low_contrast_issue], stats = []\<rparr>,
      validate_compiled_manifest = None\<rparr>"

text \<open>A store of three revisions of documents (named by strings), the third current; and
  a patch engine on lists of node names, whose only failing operation deletes a
  protected node.\<close>

definition sample_revision :: "string \<Rightarrow> string Revision" where
  "sample_revision d =
     \<lparr>rev_document = d, compiled_manifest_hash = None, rev_status = Status_committed,
      rev_created_at = ''2026-02-08T18:00:00Z''\<rparr>"

definition sample_store :: "string RevisionStore" where
  "sample_store =
     \<lparr>stored = [1 \<mapsto> sample_revision ''one'', 2 \<mapsto> sample_revision ''two'',
                3 \<mapsto> sample_revision ''three''],
      current_revision = 3\<rparr>"

datatype node_op = Create_node string | Delete_node string

datatype node_failure = ProtectedNode | UnresolvedReference

definition node_apply_op :: "node_op \<Rightarrow> string list \<Rightarrow> node_failure + string list" where
  "node_apply_op op d =
     (case op of
        Create_node n \<Rightarrow> Inr (d @ [n])
      | Delete_node n \<Rightarrow>
          if n = ''root'' then Inl ProtectedNode
          else if n \<notin> set d then Inl UnresolvedReference
          else Inr (removeAll n d))"

definition node_validate :: "string list \<Rightarrow> bool" where
  "node_validate d = distinct d"

section \<open>The pretty-printer: properties\<close>

subsection \<open>Strings: bare identifiers and quoted literals\<close>

lemma JSON_stringify_quoted: "is_quoted (JSON_stringify s)"
  by (simp add: is_quoted_def JSON_stringify_def)

lemma ident_head_not_quote: "ident_head c \<Longrightarrow> c \<noteq> CHR 0x22"
  by (auto simp: ident_head_def in_range_def)

lemma isIdentifier_not_quoted: "isIdentifier s \<Longrightarrow> \<not> is_quoted s"
  by (cases s) (auto simp: isIdentifier_def IDENTIFIER_RE_def is_quoted_def dest: ident_head_not_quote)

text \<open>
  C10. \<^verbatim>\<open>formatValue\<close> prints a string bare exactly when it matches the identifier
  pattern and is not a reserved word; every other string is printed as its JSON
  literal, between quotation marks. Identifiers and keys are printed by the same rule.
\<close>

theorem string_value_quoting:
  "formatValue ns (JStr s) lvl =
     (if IDENTIFIER_RE s \<and> s \<notin> set RESERVED_WORDS then s else JSON_stringify s) \<and>
   (is_quoted (formatValue ns (JStr s) lvl) \<longleftrightarrow> \<not> (IDENTIFIER_RE s \<and> s \<notin> set RESERVED_WORDS)) \<and>
   is_quoted (JSON_stringify s) \<and>
   formatIdentifier s = formatValue ns (JStr s) lvl \<and>
   formatKey s = formatValue ns (JStr s) lvl"
proof -
  have "is_quoted (formatValue ns (JStr s) lvl) \<longleftrightarrow> \<not> isIdentifier s"
    by (simp add: JSON_stringify_quoted isIdentifier_not_quoted)
  then show ?thesis
    by (simp add: isIdentifier_def JSON_stringify_quoted formatIdentifier_def formatKey_def)
qed

theorem string_value_quoting_witness:
  "formatValue String_int (JStr ''layout.page'') 1 = ''layout.page'' \<and>
   formatValue String_int (JStr ''true'') 1 = JSON_stringify ''true'' \<and>
   is_quoted (formatValue String_int (JStr ''true'') 1) \<and>
   is_quoted (formatValue String_int (JStr ''Math Dashboard'') 1) \<and>
   \<not> is_quoted (formatValue String_int (JStr ''layout.page'') 1)"
proof -
  have a: "IDENTIFIER_RE ''layout.page'' \<and> ''layout.page'' \<notin> set RESERVED_WORDS"
    by (simp add: IDENTIFIER_RE_def ident_head_def ident_tail_def in_range_def RESERVED_WORDS_def)
  have b: "\<not> (IDENTIFIER_RE ''true'' \<and> ''true'' \<notin> set RESERVED_WORDS)"
    by (simp add: RESERVED_WORDS_def)
  have c: "\<not> (IDENTIFIER_RE ''Math Dashboard'' \<and> ''Math Dashboard'' \<notin> set RESERVED_WORDS)"
    by (simp add: IDENTIFIER_RE_def ident_head_def ident_tail_def in_range_def)
  show ?thesis
    using string_value_quoting [of String_int "''layout.page''" 1]
      string_value_quoting [of String_int "''true''" 1]
      string_value_quoting [of String_int "''Math Dashboard''" 1] a b c
    by (simp add: isIdentifier_def is_quoted_def JSON_stringify_def)
qed

subsection \<open>The text is a function of the document\<close>

lemma document_lines_printed_fields:
  assumes "printed_fields d1 = printed_fields d2"
  shows "document_lines ns d1 = document_lines ns d2"
proof -
  from assms have
    "surface d1 = surface d2" "document_id (meta d1) = document_id (meta d2)"
    "revision (meta d1) = revision (meta d2)" "created_by (meta d1) = created_by (meta d2)"
    "theme d1 = theme d2" "layout_constraints d1 = layout_constraints d2"
    "locals (state d1) = locals (state d2)" "actions d1 = actions d2"
    "nodes d1 = nodes d2" "bindings d1 = bindings d2"
    by (simp_all add: printed_fields_def)
  then show ?thesis
    by (simp only: document_lines_def)
qed

lemma document_lines_independent:
  "document_lines ns (d\<lparr>dsl_version := v, meta := (meta d)\<lparr>created_at := c\<rparr>\<rparr>) =
   document_lines ns d"
  "document_lines ns (d\<lparr>meta := (meta d)\<lparr>created_at := c\<rparr>\<rparr>) = document_lines ns d"
  by (rule document_lines_printed_fields, simp add: printed_fields_def)+

subsection \<open>Repeated calls\<close>

text \<open>
  When the expression has neither \<^verbatim>\<open>g\<close> nor \<^verbatim>\<open>y\<close>, each function of the printer with
  state returns what the function without state returns, and the expression as it was.
\<close>

lemma RegExp_test_plain:
  "\<not> global_or_sticky re \<Longrightarrow> RegExp_test pattern re s = (pattern s, re)"
  by (simp add: RegExp_test_def)

lemma isIdentifier_st_plain:
  "\<not> global_or_sticky re \<Longrightarrow> isIdentifier_st re v = (isIdentifier v, re)"
  by (simp add: isIdentifier_st_def RegExp_test_plain isIdentifier_def)

lemma formatIdentifier_st_plain:
  "\<not> global_or_sticky re \<Longrightarrow> formatIdentifier_st re v = (formatIdentifier v, re)"
  by (simp add: formatIdentifier_st_def isIdentifier_st_plain formatIdentifier_def)

lemma formatKey_st_plain:
  "\<not> global_or_sticky re \<Longrightarrow> formatKey_st re v = (formatKey v, re)"
  by (simp add: formatKey_st_def isIdentifier_st_plain formatKey_def)

lemma formatValue_st_plain:
  "\<not> global_or_sticky re \<Longrightarrow> formatValue_st ns re v lvl = (formatValue ns v lvl, re)"
  and formatArray_st_plain:
    "\<not> global_or_sticky re \<Longrightarrow> formatArray_st ns re vs lvl = (formatArray ns vs lvl, re)"
  and formatObject_st_plain:
    "\<not> global_or_sticky re \<Longrightarrow> formatObject_st ns re es lvl = (formatObject ns es lvl, re)"
  and formatValues_st_plain:
    "\<not> global_or_sticky re \<Longrightarrow>
       formatValues_st ns re vs lvl = (map (\<lambda>v. formatValue ns v lvl) vs, re)"
  and formatEntries_st_plain:
    "\<not> global_or_sticky re \<Longrightarrow>
       formatEntries_st ns re es lvl =
         (map (\<lambda>(k, v). formatKey k @ '': '' @ formatValue ns v lvl) es, re)"
proof (induction ns re v lvl and ns re vs lvl and ns re es lvl and ns re vs lvl and ns re es lvl
    rule: formatValue_st_formatArray_st_formatObject_st_formatValues_st_formatEntries_st.induct)
  case 7
  then show ?case
    by (simp add: formatArray.simps formatArray_st.simps Let_def comp_def)
next
  case 8
  then show ?case
    by (simp add: formatObject.simps formatObject_st.simps Let_def comp_def case_prod_unfold)
qed (simp_all add: isIdentifier_st_plain formatKey_st_plain)

lemma pushOptionalObjectBlock_st_plain:
  "\<not> global_or_sticky re \<Longrightarrow>
   pushOptionalObjectBlock_st ns (ls, re) label v lvl =
     (pushOptionalObjectBlock ns ls label v lvl, re)"
  by (simp add: pushOptionalObjectBlock_st_def pushOptionalObjectBlock_def formatObject_st_plain)

lemma emit_action_st_plain:
  assumes re: "\<not> global_or_sticky re"
  shows "emit_action_st ns (ls, re) a = (emit_action ns ls a, re)"
  by (simp only: emit_action_st_def emit_action_def Let_def prod.case
        formatIdentifier_st_plain [OF re] formatValue_st_plain [OF re]
        formatArray_st_plain [OF re] formatObject_st_plain [OF re]
        pushOptionalObjectBlock_st_plain [OF re])

lemma emit_binding_st_plain:
  assumes re: "\<not> global_or_sticky re"
  shows "emit_binding_st ns (ls, re) b = (emit_binding ns ls b, re)"
  by (simp only: emit_binding_st_def emit_binding_def Let_def prod.case
        formatIdentifier_st_plain [OF re] formatValue_st_plain [OF re]
        formatArray_st_plain [OF re] formatObject_st_plain [OF re]
        pushOptionalObjectBlock_st_plain [OF re])

lemma option_case_st:
  "(case c of None \<Rightarrow> (ls, re) | Some v \<Rightarrow> (f v, re)) = (case c of None \<Rightarrow> ls | Some v \<Rightarrow> f v, re)"
  by (cases c) simp_all

lemma if_st: "(if b then (x, re) else (y, re)) = (if b then x else y, re)"
  by simp

lemma emit_node_st_plain:
  assumes re: "\<not> global_or_sticky re"
  shows "emit_node_st ns (ls, re) n = (emit_node ns ls n, re)"
  by (simp only: emit_node_st_def emit_node_def Let_def prod.case
        formatIdentifier_st_plain [OF re] formatValue_st_plain [OF re]
        formatArray_st_plain [OF re] formatObject_st_plain [OF re]
        pushOptionalObjectBlock_st_plain [OF re] option_case_st if_st)

lemma foldl_st_plain:
  assumes "\<And>ls x. f (ls, re) x = (g ls x, re)"
  shows "foldl f (ls, re) xs = (foldl g ls xs, re)"
  by (induction xs arbitrary: ls) (simp_all add: assms)

lemma document_lines_st_plain:
  assumes re: "\<not> global_or_sticky re"
  shows "document_lines_st ns re d = (document_lines ns d, re)"
  by (simp only: document_lines_st_def document_lines_def Let_def prod.case
        formatIdentifier_st_plain [OF re] formatValue_st_plain [OF re]
        formatArray_st_plain [OF re] formatObject_st_plain [OF re]
        pushOptionalObjectBlock_st_plain [OF re] if_st
        foldl_st_plain [of "emit_action_st ns" re "emit_action ns", OF emit_action_st_plain [OF re]]
        foldl_st_plain [of "emit_node_st ns" re "emit_node ns", OF emit_node_st_plain [OF re]]
        foldl_st_plain [of "emit_binding_st ns" re "emit_binding ns", OF emit_binding_st_plain [OF re]])

lemma serializeDuiDslDocument_st_plain:
  assumes re: "\<not> global_or_sticky re"
  shows "serializeDuiDslDocument_st ns re d = (serializeDuiDslDocument ns d, re)"
  by (simp only: serializeDuiDslDocument_st_def serializeDuiDslDocument_def
        document_lines_st_plain [OF re] prod.case)

text \<open>
  C2. \<^verbatim>\<open>IDENTIFIER_RE\<close> has neither \<^verbatim>\<open>g\<close> nor \<^verbatim>\<open>y\<close>. Whatever its \<^verbatim>\<open>lastIndex\<close>, a call
  of \<^verbatim>\<open>serializeDuiDslDocument\<close> leaves the expression as it found it, a second call on
  the same document returns the same text as the first, and this text is the value of
  the function \<open>serializeDuiDslDocument\<close> of the document alone.
\<close>

theorem serialize_deterministic:
  assumes "\<not> global_or_sticky re"
  shows "snd (serializeDuiDslDocument_st ns re d) = re \<and>
     fst (serializeDuiDslDocument_st ns (snd (serializeDuiDslDocument_st ns re d)) d) =
       fst (serializeDuiDslDocument_st ns re d) \<and>
     fst (serializeDuiDslDocument_st ns re d) = serializeDuiDslDocument ns d"
  by (simp add: serializeDuiDslDocument_st_plain [OF assms])

text \<open>The expression of the module, and two calls on the example document.\<close>

theorem serialize_deterministic_witness:
  "\<not> global_or_sticky IDENTIFIER_RE_object \<and>
   snd (serializeDuiDslDocument_st String_int IDENTIFIER_RE_object sample_document) =
     IDENTIFIER_RE_object \<and>
   fst (serializeDuiDslDocument_st String_int
         (snd (serializeDuiDslDocument_st String_int IDENTIFIER_RE_object sample_document))
         sample_document) =
     fst (serializeDuiDslDocument_st String_int IDENTIFIER_RE_object sample_document)"
  using serialize_deterministic [of IDENTIFIER_RE_object String_int sample_document]
  by (simp add: IDENTIFIER_RE_object_def)

text \<open>
  The flags carry the result. With the flag \<^verbatim>\<open>g\<close> the same test succeeds and then
  fails, and two calls of the printer in a row on the example document return
  different texts: the first, finding \<^verbatim>\<open>lastIndex\<close> at 1, quotes the name of the surface,
  the second does not.
\<close>

lemma global_flag_test_alternates:
  "RegExp_test IDENTIFIER_RE \<lparr>global_or_sticky = True, lastIndex = 0\<rparr> ''root'' =
     (True, \<lparr>global_or_sticky = True, lastIndex = 4\<rparr>) \<and>
   RegExp_test IDENTIFIER_RE \<lparr>global_or_sticky = True, lastIndex = 4\<rparr> ''root'' =
     (False, \<lparr>global_or_sticky = True, lastIndex = 0\<rparr>)"
  by (simp add: RegExp_test_def IDENTIFIER_RE_def ident_head_def ident_tail_def in_range_def)

lemma global_flag_calls_differ:
  "fst (serializeDuiDslDocument_st String_int
          (snd (serializeDuiDslDocument_st String_int
                  \<lparr>global_or_sticky = True, lastIndex = 1\<rparr> sample_document))
          sample_document) \<noteq>
   fst (serializeDuiDslDocument_st String_int
          \<lparr>global_or_sticky = True, lastIndex = 1\<rparr> sample_document)"
  by code_simp

subsection \<open>What the text leaves out\<close>

text \<open>
  The text does not carry \<^verbatim>\<open>dsl_version\<close> or \<^verbatim>\<open>meta.created_at\<close>: documents that
  differ only there have the same text.
\<close>

lemma text_omits_version_and_timestamp:
  "serializeDuiDslDocument ns (d\<lparr>dsl_version := v, meta := (meta d)\<lparr>created_at := c\<rparr>\<rparr>) =
   serializeDuiDslDocument ns d"
  by (simp only: serializeDuiDslDocument_def document_lines_independent)

subsection \<open>The order of the blocks\<close>

lemma split_lines_ne [simp]: "split_lines s \<noteq> []"
  by (induction s) (auto split: list.splits)

lemma split_lines_nl: "split_lines (a @ CHR 0x0A # b) = split_lines a @ split_lines b"
  by (induction a) (auto split: list.splits)

lemma split_lines_single: "CHR 0x0A \<notin> set s \<Longrightarrow> split_lines s = [s]"
  by (induction s) auto

lemma split_lines_prefix:
  "CHR 0x0A \<notin> set p \<Longrightarrow> split_lines (p @ r) = (p @ hd (split_lines r)) # tl (split_lines r)"
  by (induction p) (auto split: list.splits)

lemma starts_append: "starts k a \<Longrightarrow> starts k (a @ b)"
  by (induction k a rule: starts.induct) auto

lemma starts_mono: "starts (Suc (Suc k)) a \<Longrightarrow> starts k a"
  by (induction k a rule: starts.induct) (auto elim: starts.elims)

lemma cont_ok_mono: "cont_ok (Suc (Suc k)) a \<Longrightarrow> cont_ok k a"
  by (induction a) (auto dest: starts_mono)

lemma cont_ok_plain: "CHR 0x0A \<notin> set s \<Longrightarrow> cont_ok k s"
  by (induction s) auto

lemma cont_ok_append: "cont_ok k a \<Longrightarrow> cont_ok k b \<Longrightarrow> cont_ok k (a @ b)"
  by (induction a) (auto intro: starts_append)

lemma cont_ok_nl: "cont_ok k a \<Longrightarrow> starts k b \<Longrightarrow> cont_ok k b \<Longrightarrow> cont_ok k (a @ CHR 0x0A # b)"
  by (induction a) (auto intro: starts_append)

lemma starts_hd_split: "starts k s \<Longrightarrow> starts k (hd (split_lines s))"
  by (induction k s rule: starts.induct) (auto split: list.splits)

lemma not_label_char [simp]:
  "\<not> is_label_char CHR '' ''" "\<not> is_label_char CHR '']''" "\<not> is_label_char CHR ''}''"
  by (simp_all add: is_label_char_def in_range_def)

lemma starts_no_label: "starts (Suc (Suc k)) l \<Longrightarrow> block_label l = None"
proof -
  assume a: "starts (Suc (Suc k)) l"
  then obtain r where l: "l = CHR '' '' # CHR '' '' # r" and r: "starts k r"
    by (cases l; cases "tl l") auto
  from r obtain c r' where "r = c # r'" and "\<not> is_label_char c"
    by (cases r; cases k) auto
  with l show ?thesis by (simp add: block_label_def)
qed

lemma cont_ok_tl_lines:
  "cont_ok k s \<Longrightarrow> \<forall>l \<in> set (tl (split_lines s)). starts k l"
proof (induction s)
  case Nil
  then show ?case by simp
next
  case (Cons c cs)
  show ?case
  proof (cases "c = CHR 0x0A")
    case True
    with Cons have st: "starts k cs" and ok: "cont_ok k cs" by auto
    obtain l ls where sp: "split_lines cs = l # ls"
      by (cases "split_lines cs") auto
    with st have "starts k l" using starts_hd_split [of k cs] by simp
    with True ok Cons.IH sp show ?thesis by auto
  next
    case False
    with Cons show ?thesis by (auto split: list.splits)
  qed
qed


lemma repeat_INDENT: "repeat INDENT n = replicate (2 * n) CHR '' ''"
  by (induction n) (simp_all add: INDENT_def repeat.simps)

lemma starts_replicate: "starts k (replicate k CHR '' '' @ r) = starts 0 r"
  by (induction k) simp_all

lemma starts_indent_more: "starts k (replicate (Suc (Suc k)) CHR '' '' @ r)"
  by (induction k) simp_all

lemma hex_digit_plain: "hex_digit n \<noteq> CHR 0x0A"
proof -
  have "hex_digit n \<in> set ''0123456789abcdef''"
    unfolding hex_digit_def by (rule nth_mem) simp
  then show ?thesis by auto
qed

lemma quote_unit_plain: "CHR 0x0A \<notin> set (quote_unit c)"
  using hex_digit_plain [of "of_char c div 16"] hex_digit_plain [of "of_char c"]
  by (auto simp: quote_unit_def)

lemma JSON_stringify_plain: "CHR 0x0A \<notin> set (JSON_stringify s)"
  by (induction s) (simp_all add: JSON_stringify_def quote_unit_plain)

lemma ident_tail_plain: "ident_tail c \<Longrightarrow> c \<noteq> CHR 0x0A"
  by (auto simp: ident_tail_def in_range_def)

lemma ident_head_tail: "ident_head c \<Longrightarrow> ident_tail c"
  by (auto simp: ident_tail_def ident_head_def)

lemma isIdentifier_plain: "isIdentifier s \<Longrightarrow> CHR 0x0A \<notin> set s"
  by (cases s)
     (auto simp: isIdentifier_def IDENTIFIER_RE_def list_all_iff
        dest: ident_tail_plain ident_head_tail)

lemma formatKey_plain: "CHR 0x0A \<notin> set (formatKey s)"
  by (simp add: formatKey_def isIdentifier_plain JSON_stringify_plain)

lemma formatIdentifier_plain: "CHR 0x0A \<notin> set (formatIdentifier s)"
  by (simp add: formatIdentifier_def isIdentifier_plain JSON_stringify_plain)

lemma formatValue_JStr_plain: "CHR 0x0A \<notin> set (formatValue ns (JStr s) lvl)"
  by (simp add: isIdentifier_plain JSON_stringify_plain)

lemma join_plain:
  "CHR 0x0A \<notin> set sep \<Longrightarrow> (\<And>x. x \<in> set xs \<Longrightarrow> CHR 0x0A \<notin> set x) \<Longrightarrow>
   CHR 0x0A \<notin> set (join sep xs)"
  by (induction sep xs rule: join.induct) auto

lemma formatValue_primitive_plain:
  "(\<And>n. CHR 0x0A \<notin> set (ns n)) \<Longrightarrow> is_primitive v \<Longrightarrow>
   CHR 0x0A \<notin> set (formatValue ns v lvl)"
  by (cases v) (simp_all add: isIdentifier_plain JSON_stringify_plain)

lemma join_head: "\<exists>r. join sep (x # xs) = x @ r"
  by (cases xs) simp_all

lemma starts_join: "starts k x \<Longrightarrow> starts k (join sep (x # xs))"
  using join_head [of sep x xs] by (auto intro: starts_append)

lemma cont_ok_rows:
  "(\<And>r. r \<in> set rows \<Longrightarrow> cont_ok k r \<and> starts k r) \<Longrightarrow>
   cont_ok k (join ('','' @ [CHR 0x0A]) rows)"
proof (induction "'','' @ [CHR 0x0A]" rows rule: join.induct)
  case 1
  then show ?case by simp
next
  case (2 x)
  then show ?case by simp
next
  case (3 x y ys)
  have a: "cont_ok k (x @ '','')"
    using 3(2) [of x] by (simp add: cont_ok_append)
  have b: "cont_ok k (join ('','' @ [CHR 0x0A]) (y # ys))"
    using 3 by simp
  have c: "starts k (join ('','' @ [CHR 0x0A]) (y # ys))"
    using 3(2) [of y] by (simp add: starts_join)
  from cont_ok_nl [OF a c b] show ?case by simp
qed

lemma cont_ok_block:
  assumes rows: "rows \<noteq> []" "\<And>r. r \<in> set rows \<Longrightarrow> cont_ok k r \<and> starts k r"
    and cl: "c = CHR '']'' \<or> c = CHR ''}''" and op: "op \<noteq> CHR 0x0A"
  shows "cont_ok k (op # CHR 0x0A # join ('','' @ [CHR 0x0A]) rows @ CHR 0x0A # replicate k CHR '' '' @ [c])"
proof -
  let ?J = "join ('','' @ [CHR 0x0A]) rows"
  let ?E = "replicate k CHR '' '' @ [c]"
  from rows obtain x xs where r: "rows = x # xs" by (cases rows) auto
  have sE: "starts k ?E" using cl by (auto simp: starts_replicate)
  have cE: "cont_ok k ?E" using cl by (auto intro!: cont_ok_plain)
  have cJ: "cont_ok k ?J" using rows(2) by (rule cont_ok_rows)
  have sJ: "starts k ?J" unfolding r using rows(2) [of x] r by (simp add: starts_join)
  have 1: "cont_ok k (?J @ CHR 0x0A # ?E)" by (rule cont_ok_nl [OF cJ sE cE])
  have 2: "starts k (?J @ CHR 0x0A # ?E)" by (rule starts_append [OF sJ])
  have "cont_ok k ([op] @ CHR 0x0A # (?J @ CHR 0x0A # ?E))"
    by (rule cont_ok_nl [OF _ 2 1]) (simp add: op)
  then show ?thesis by simp
qed


lemma repeat_INDENT_plain: "CHR 0x0A \<notin> set (repeat INDENT n)"
  by (simp only: repeat_INDENT) simp

lemma row_ok:
  assumes "cont_ok (2 * Suc lvl) body" and that: "CHR 0x0A \<notin> set key"
  shows "cont_ok (2 * lvl) (repeat INDENT (lvl + 1) @ key @ body) \<and>
         starts (2 * lvl) (repeat INDENT (lvl + 1) @ key @ body)"
proof -
  have "cont_ok (2 * lvl) body" using assms by (simp add: cont_ok_mono)
  moreover have "cont_ok (2 * lvl) (repeat INDENT (lvl + 1))" "cont_ok (2 * lvl) key"
    using that by (simp_all only: cont_ok_plain repeat_INDENT_plain not_False_eq_True)
  ultimately have "cont_ok (2 * lvl) (repeat INDENT (lvl + 1) @ key @ body)"
    by (blast intro: cont_ok_append)
  moreover have "starts (2 * lvl) (repeat INDENT (lvl + 1) @ key @ body)"
    using starts_indent_more [of "2 * lvl" "key @ body"] by (simp add: repeat_INDENT)
  ultimately show ?thesis by simp
qed

lemma formatArray_cont:
  assumes ns: "\<And>n. CHR 0x0A \<notin> set (ns n)"
    and IH: "\<And>v l. v \<in> set vs \<Longrightarrow> cont_ok (2 * l) (formatValue ns v l)"
  shows "cont_ok (2 * lvl) (formatArray ns vs lvl)"
proof (cases "vs = []")
  case True
  then show ?thesis by (simp add: formatArray.simps)
next
  case False
  let ?inline = "''['' @ join '', '' (map (\<lambda>v. formatValue ns v lvl) vs) @ '']''"
  show ?thesis
  proof (cases "length ?inline \<le> 88 \<and> list_all is_primitive vs")
    case True
    then have "\<And>x. x \<in> set (map (\<lambda>v. formatValue ns v lvl) vs) \<Longrightarrow> CHR 0x0A \<notin> set x"
      using ns by (auto simp: list_all_iff formatValue_primitive_plain)
    then have "CHR 0x0A \<notin> set (join '', '' (map (\<lambda>v. formatValue ns v lvl) vs))"
      by (intro join_plain) simp_all
    then have "cont_ok (2 * lvl) ?inline" by (intro cont_ok_plain) simp
    with True False show ?thesis by (simp add: formatArray.simps Let_def)
  next
    case no: False
    let ?rows = "map (\<lambda>v. repeat INDENT (lvl + 1) @ formatValue ns v (lvl + 1)) vs"
    have rows: "\<And>r. r \<in> set ?rows \<Longrightarrow> cont_ok (2 * lvl) r \<and> starts (2 * lvl) r"
      using IH [of _ "Suc lvl"] row_ok [of lvl _ "[]"] by auto
    have "cont_ok (2 * lvl) (CHR ''['' # CHR 0x0A # join ('','' @ [CHR 0x0A]) ?rows @
            CHR 0x0A # replicate (2 * lvl) CHR '' '' @ [CHR '']''])"
      by (rule cont_ok_block [OF _ rows]) (simp_all add: False)
    with no False show ?thesis
      by (auto simp: formatArray.simps Let_def repeat_INDENT simp del: replicate_Suc)
  qed
qed

lemma formatObject_cont:
  assumes ns: "\<And>n. CHR 0x0A \<notin> set (ns n)"
    and IH: "\<And>k v l. (k, v) \<in> set es \<Longrightarrow> cont_ok (2 * l) (formatValue ns v l)"
  shows "cont_ok (2 * lvl) (formatObject ns es lvl)"
proof (cases "es = []")
  case True
  then show ?thesis by (simp add: formatObject.simps)
next
  case False
  let ?parts = "map (\<lambda>(k, v). formatKey k @ '': '' @ formatValue ns v lvl) es"
  let ?inline = "''{ '' @ join '', '' ?parts @ '' }''"
  show ?thesis
  proof (cases "length ?inline \<le> 100 \<and> list_all (\<lambda>(k, v). is_primitive v) es")
    case True
    then have "\<And>x. x \<in> set ?parts \<Longrightarrow> CHR 0x0A \<notin> set x"
      using ns by (auto simp: list_all_iff formatValue_primitive_plain formatKey_plain)
    then have "CHR 0x0A \<notin> set (join '', '' ?parts)"
      by (intro join_plain) simp_all
    then have "cont_ok (2 * lvl) ?inline" by (intro cont_ok_plain) simp
    with True False show ?thesis by (simp add: formatObject.simps Let_def)
  next
    case no: False
    let ?rows = "map (\<lambda>(k, v).
        repeat INDENT (lvl + 1) @ formatKey k @ '': '' @ formatValue ns v (lvl + 1)) es"
    have rows: "\<And>r. r \<in> set ?rows \<Longrightarrow> cont_ok (2 * lvl) r \<and> starts (2 * lvl) r"
    proof -
      fix r assume "r \<in> set ?rows"
      then obtain k v where kv: "(k, v) \<in> set es"
        and r: "r = repeat INDENT (lvl + 1) @ (formatKey k @ '': '') @ formatValue ns v (lvl + 1)"
        by auto
      show "cont_ok (2 * lvl) r \<and> starts (2 * lvl) r"
        unfolding r using IH [OF kv, of "Suc lvl"]
        by (intro row_ok) (simp_all add: formatKey_plain)
    qed
    have "cont_ok (2 * lvl) (CHR ''{'' # CHR 0x0A # join ('','' @ [CHR 0x0A]) ?rows @
            CHR 0x0A # replicate (2 * lvl) CHR '' '' @ [CHR ''}''])"
      by (rule cont_ok_block [OF _ rows]) (simp_all add: False)
    with no False show ?thesis
      by (auto simp: formatObject.simps Let_def repeat_INDENT simp del: replicate_Suc)
  qed
qed

lemma formatValue_cont:
  assumes ns: "\<And>n. CHR 0x0A \<notin> set (ns n)"
  shows "cont_ok (2 * lvl) (formatValue ns v lvl)"
proof (induction v arbitrary: lvl)
  case (JArr vs)
  then show ?case using formatArray_cont [where ns = ns and vs = vs and lvl = lvl] ns by simp
next
  case (JObj es)
  have "\<And>k v l. (k, v) \<in> set es \<Longrightarrow> cont_ok (2 * l) (formatValue ns v l)"
    using JObj.IH [of "(k, v)" v for k v] by (simp add: snds.simps)
  then show ?case using formatObject_cont [where ns = ns and es = es and lvl = lvl] ns by simp
qed (simp_all add: cont_ok_plain ns isIdentifier_plain JSON_stringify_plain)


lemma map_filter_append: "List.map_filter f (xs @ ys) = List.map_filter f xs @ List.map_filter f ys"
  by (simp add: List.map_filter_def)

lemma block_label_empty [simp]: "block_label [] = None"
  by (simp add: block_label_def)

lemma block_labels_join:
  "block_labels (join [CHR 0x0A] es @ [CHR 0x0A]) = concat (map entry_labels es)"
proof (induction "[CHR 0x0A]" es rule: join.induct)
  case 1
  then show ?case by (simp add: block_labels_def List.map_filter_def)
next
  case (2 x)
  have "split_lines (x @ [CHR 0x0A]) = split_lines x @ [[]]"
    using split_lines_nl [of x "[]"] by simp
  then show ?case
    by (simp add: block_labels_def entry_labels_def map_filter_append)
next
  case (3 x y ys)
  have "split_lines (x @ CHR 0x0A # join [CHR 0x0A] (y # ys) @ [CHR 0x0A]) =
        split_lines x @ split_lines (join [CHR 0x0A] (y # ys) @ [CHR 0x0A])"
    by (rule split_lines_nl)
  with 3 show ?case
    by (simp add: block_labels_def entry_labels_def map_filter_append)
qed

lemma entry_labels_cont:
  assumes "cont_ok 2 r" and "CHR 0x0A \<notin> set p"
  shows "entry_labels (p @ r) =
         (case block_label (p @ hd (split_lines r)) of None \<Rightarrow> [] | Some l \<Rightarrow> [l])"
proof -
  have "\<forall>l \<in> set (tl (split_lines r)). starts 2 l"
    using assms(1) by (rule cont_ok_tl_lines)
  then have "\<forall>l \<in> set (tl (split_lines r)). block_label l = None"
    using starts_no_label [of 0] by (simp add: numeral_2_eq_2)
  then have "List.map_filter block_label (tl (split_lines r)) = []"
    by (simp add: List.map_filter_def filter_empty_conv)
  then show ?thesis
    using split_lines_prefix [OF assms(2), of r]
    by (simp add: entry_labels_def List.map_filter_def split: option.splits)
qed

lemma entry_labels_plain:
  assumes "CHR 0x0A \<notin> set e"
  shows "entry_labels e = (case block_label e of None \<Rightarrow> [] | Some l \<Rightarrow> [l])"
  using entry_labels_cont [of "[]" e] assms by simp

lemma block_label_inner [simp]:
  "block_label (CHR '' '' # CHR '' '' # CHR '' '' # x) = None"
  by (simp add: block_label_def)

lemma block_label_word:
  assumes "w \<noteq> []" and "list_all is_label_char w"
  shows "block_label (CHR '' '' # CHR '' '' # w @ CHR '' '' # x) = Some w"
proof -
  obtain c cs where w: "w = c # cs" using assms(1) by (cases w) auto
  have "takeWhile is_label_char (w @ CHR '' '' # x) = w"
    using assms(2) by (simp add: takeWhile_tail list_all_iff)
  with w assms(2) show ?thesis by (simp add: block_label_def)
qed


lemma lines_labels_simps [simp]:
  "lines_labels [] = []"
  "lines_labels (e # ls) = entry_labels e @ lines_labels ls"
  "lines_labels (ls @ ls') = lines_labels ls @ lines_labels ls'"
  by (simp_all add: lines_labels_def)

lemma repeat_INDENT_1: "repeat INDENT 1 = INDENT" "repeat INDENT (Suc 0) = INDENT"
  by (simp_all add: repeat.simps)

lemma repeat_INDENT_2: "repeat INDENT 2 = INDENT @ INDENT"
  by (simp add: repeat.simps numeral_2_eq_2)

lemma is_label_char_plain: "is_label_char c \<Longrightarrow> c \<noteq> CHR 0x0A"
  by (auto simp: is_label_char_def in_range_def)

lemma entry_labels_block:
  assumes "w \<noteq> []" and "list_all is_label_char w" and "cont_ok 2 x"
  shows "entry_labels (INDENT @ w @ CHR '' '' # x) = [w]"
proof -
  have "CHR 0x0A \<notin> set (INDENT @ w @ [CHR '' ''])"
    using assms(2) by (auto simp: INDENT_def list_all_iff dest: is_label_char_plain)
  from entry_labels_cont [OF assms(3) this] show ?thesis
    using block_label_word [OF assms(1,2)] by (simp add: INDENT_def)
qed

lemma entry_labels_inner:
  assumes "cont_ok 2 x"
  shows "entry_labels (INDENT @ INDENT @ x) = []"
proof -
  have "CHR 0x0A \<notin> set (INDENT @ INDENT @ [CHR '' ''])" by (simp add: INDENT_def)
  have "entry_labels ((INDENT @ INDENT) @ x) = []"
    by (subst entry_labels_cont [OF assms]) (simp_all add: INDENT_def)
  then show ?thesis by simp
qed

lemma entry_labels_nil [simp]: "entry_labels [] = []"
  by (simp add: entry_labels_def List.map_filter_def)

lemma cont_ok_4_2: "cont_ok 4 x \<Longrightarrow> cont_ok 2 x"
  using cont_ok_mono [of 2 x] by (simp add: eval_nat_numeral)

lemma formatObject_cont_1:
  assumes "\<And>n. CHR 0x0A \<notin> set (ns n)"
  shows "cont_ok 2 (formatObject ns es 1)"
  using formatValue_cont [where ns = ns and lvl = 1 and v = "JObj es"] assms by simp

lemma formatObject_cont_2:
  assumes "\<And>n. CHR 0x0A \<notin> set (ns n)"
  shows "cont_ok 2 (formatObject ns es 2)"
  using formatValue_cont [where ns = ns and lvl = 2 and v = "JObj es"] assms by (simp add: cont_ok_4_2)

lemma formatArray_cont_2:
  assumes "\<And>n. CHR 0x0A \<notin> set (ns n)"
  shows "cont_ok 2 (formatArray ns vs 2)"
  using formatValue_cont [where ns = ns and lvl = 2 and v = "JArr vs"] assms by (simp add: cont_ok_4_2)

lemma formatValue_JStr_cont: "cont_ok k (formatValue ns (JStr s) lvl)"
  by (rule cont_ok_plain) (rule formatValue_JStr_plain)

lemma labels_optional_inner:
  assumes ns: "\<And>n. CHR 0x0A \<notin> set (ns n)" and l: "CHR 0x0A \<notin> set label"
  shows "lines_labels (pushOptionalObjectBlock ns ls label v 2) = lines_labels ls"
proof -
  have "cont_ok 2 (label @ '' '' @ formatObject ns v 2)"
    using l by (intro cont_ok_append cont_ok_plain formatObject_cont_2 ns) simp_all
  from entry_labels_inner [OF this] show ?thesis
    by (simp add: pushOptionalObjectBlock_def repeat_INDENT_2)
qed

lemma labels_optional_outer:
  assumes ns: "\<And>n. CHR 0x0A \<notin> set (ns n)" and w: "w \<noteq> []" "list_all is_label_char w"
  shows "lines_labels (pushOptionalObjectBlock ns ls w v 1) =
         lines_labels ls @ (if v = [] then [] else [w])"
  using entry_labels_block [OF w formatObject_cont_1 [where ns = ns and es = v]] ns
  by (simp add: pushOptionalObjectBlock_def repeat_INDENT_1)

lemma emit_action_labels:
  assumes ns: "\<And>n. CHR 0x0A \<notin> set (ns n)"
  shows "lines_labels (emit_action ns ls a) = lines_labels ls @ [''action'']"
proof -
  have 1: "entry_labels (INDENT @ ''action '' @ formatIdentifier (action_id a) @ '' {'') = [''action'']"
    using entry_labels_block [of "''action''" "formatIdentifier (action_id a) @ '' {''"]
    by (simp add: is_label_char_def in_range_def cont_ok_plain formatIdentifier_plain)
  have 2: "entry_labels (INDENT @ INDENT @ ''type: '' @ formatValue ns (JStr (action_type a)) 2) = []"
    by (intro entry_labels_inner cont_ok_append cont_ok_plain formatValue_JStr_plain) simp
  have 3: "entry_labels (INDENT @ ''}'') = []"
    by (simp add: entry_labels_def INDENT_def block_label_def List.map_filter_def)
  have 4: "lines_labels (pushOptionalObjectBlock ns ls' ''params'' v 2) = lines_labels ls'" for ls' v
    by (rule labels_optional_inner [OF ns]) simp
  show ?thesis
    by (simp only: emit_action_def Let_def lines_labels_simps 1 2 3 4 entry_labels_nil
          append_Nil append_Nil2 append_assoc)
qed


lemma entry_labels_close: "entry_labels (INDENT @ ''}'') = []"
  by (simp add: entry_labels_def INDENT_def block_label_def List.map_filter_def)

lemma emit_binding_labels:
  assumes ns: "\<And>n. CHR 0x0A \<notin> set (ns n)"
  shows "lines_labels (emit_binding ns ls b) = lines_labels ls @ [''binding'']"
proof -
  have 1: "entry_labels (INDENT @ ''binding '' @ formatIdentifier (binding_id b) @ '' {'') =
           [''binding'']"
    using entry_labels_block [of "''binding''" "formatIdentifier (binding_id b) @ '' {''"]
    by (simp add: is_label_char_def in_range_def cont_ok_plain formatIdentifier_plain)
  have 2: "entry_labels (INDENT @ INDENT @ ''source: '' @ formatValue ns (JStr (source b)) 2) = []"
    by (intro entry_labels_inner cont_ok_append cont_ok_plain formatValue_JStr_plain) simp
  have 3: "entry_labels (INDENT @ INDENT @ ''select: '' @ formatValue ns (JStr (select b)) 2) = []"
    by (intro entry_labels_inner cont_ok_append cont_ok_plain formatValue_JStr_plain) simp
  have 4: "lines_labels (pushOptionalObjectBlock ns ls' ''args'' v 2) = lines_labels ls'" for ls' v
    by (rule labels_optional_inner [OF ns]) simp
  have 5: "lines_labels (pushOptionalObjectBlock ns ls' ''cache'' v 2) = lines_labels ls'" for ls' v
    by (rule labels_optional_inner [OF ns]) simp
  show ?thesis
    by (simp only: emit_binding_def Let_def lines_labels_simps 1 2 3 4 5 entry_labels_nil
          entry_labels_close append_Nil append_Nil2 append_assoc)
qed

lemma emit_node_labels:
  assumes ns: "\<And>n. CHR 0x0A \<notin> set (ns n)"
  shows "lines_labels (emit_node ns ls n) = lines_labels ls @ [''node'']"
proof -
  have 1: "entry_labels (INDENT @ ''node '' @ formatIdentifier (node_id n) @ '': '' @
             formatIdentifier (node_type n) @ '' {'') = [''node'']"
    using entry_labels_block [of "''node''"
        "formatIdentifier (node_id n) @ '': '' @ formatIdentifier (node_type n) @ '' {''"]
    by (simp add: is_label_char_def in_range_def cont_ok_plain formatIdentifier_plain)
  have 2: "lines_labels (pushOptionalObjectBlock ns ls' ''props'' v 2) = lines_labels ls'"
    "lines_labels (pushOptionalObjectBlock ns ls' ''style'' v 2) = lines_labels ls'"
    "lines_labels (pushOptionalObjectBlock ns ls' ''layout'' v 2) = lines_labels ls'"
    "lines_labels (pushOptionalObjectBlock ns ls' ''a11y'' v 2) = lines_labels ls'"
    "lines_labels (pushOptionalObjectBlock ns ls' ''visible_when'' v 2) = lines_labels ls'"
    "lines_labels (pushOptionalObjectBlock ns ls' ''enabled_when'' v 2) = lines_labels ls'"
    for ls' v
    by (rule labels_optional_inner [OF ns], simp)+
  have 3: "entry_labels (INDENT @ INDENT @ ''children: '' @ formatArray ns vs 2) = []" for vs
    by (intro entry_labels_inner cont_ok_append cont_ok_plain formatArray_cont_2 ns) simp
  have 4: "entry_labels (INDENT @ INDENT @ ''slots '' @ formatObject ns es 2) = []" for es
    by (intro entry_labels_inner cont_ok_append cont_ok_plain formatObject_cont_2 ns) simp
  have 5: "entry_labels (INDENT @ INDENT @ ''on '' @ formatObject ns es 2) = []" for es
    by (intro entry_labels_inner cont_ok_append cont_ok_plain formatObject_cont_2 ns) simp
  have 6: "lines_labels (case c of None \<Rightarrow> ls' | Some v \<Rightarrow>
             pushOptionalObjectBlock ns ls' ''visible_when'' v 2) = lines_labels ls'"
    "lines_labels (case c of None \<Rightarrow> ls' | Some v \<Rightarrow>
             pushOptionalObjectBlock ns ls' ''enabled_when'' v 2) = lines_labels ls'"
    for c ls'
    by (cases c; simp only: 2 option.case)+
  have 7: "lines_labels (if c then ls' @ [e] else ls') =
           lines_labels ls' @ (if c then entry_labels e else [])" for c ls' e
    by simp
  show ?thesis
    unfolding emit_node_def Let_def
    by (simp only: lines_labels_simps(3) 6 7 2 append_assoc)
       (simp only: lines_labels_simps 1 3 4 5 entry_labels_nil entry_labels_close
          append_Nil append_Nil2 if_cancel)
qed

lemma foldl_emit_action_labels:
  assumes ns: "\<And>n. CHR 0x0A \<notin> set (ns n)"
  shows "lines_labels (foldl (emit_action ns) ls as) =
         lines_labels ls @ replicate (length as) ''action''"
  by (induction as arbitrary: ls) (simp_all add: emit_action_labels [OF ns] replicate_append_same)

lemma foldl_emit_node_labels:
  assumes ns: "\<And>n. CHR 0x0A \<notin> set (ns n)"
  shows "lines_labels (foldl (emit_node ns) ls as) =
         lines_labels ls @ replicate (length as) ''node''"
  by (induction as arbitrary: ls) (simp_all add: emit_node_labels [OF ns] replicate_append_same)

lemma foldl_emit_binding_labels:
  assumes ns: "\<And>n. CHR 0x0A \<notin> set (ns n)"
  shows "lines_labels (foldl (emit_binding ns) ls as) =
         lines_labels ls @ replicate (length as) ''binding''"
  by (induction as arbitrary: ls) (simp_all add: emit_binding_labels [OF ns] replicate_append_same)


lemma digit_char_plain: "digit_char n \<noteq> CHR 0x0A"
proof -
  have "digit_char n \<in> set ''0123456789''"
    unfolding digit_char_def by (rule nth_mem) simp
  then show ?thesis by auto
qed

lemma digits_plain: "CHR 0x0A \<notin> set (digits n)"
  by (induction n rule: digits.induct)
     (subst digits.simps, simp add: digit_char_plain digit_char_plain [symmetric])

lemma String_int_plain: "CHR 0x0A \<notin> set (String_int i)"
  by (simp add: String_int_def digits_plain)

lemma document_labels:
  assumes ns: "\<And>n. CHR 0x0A \<notin> set (ns n)"
  shows "lines_labels (document_lines ns d) =
     [''surface_meta'', ''meta'', ''theme''] @
     (if layout_constraints d = [] then [] else [''layout_constraints'']) @
     (if locals (state d) = [] then [] else [''state'']) @
     replicate (length (actions d)) ''action'' @
     replicate (length (nodes d)) ''node'' @
     replicate (length (bindings d)) ''binding''"
proof -
  have 0: "entry_labels (''surface '' @ formatIdentifier (surface_id (surface d)) @ '' {'') = []"
    by (subst entry_labels_plain) (simp_all add: formatIdentifier_plain block_label_def)
  have 1: "entry_labels (INDENT @ ''surface_meta { title: '' @
             formatValue ns (JStr (surface_title (surface d))) 1 @ '', route: '' @
             formatValue ns (JStr (surface_route (surface d))) 1 @ '' }'') = [''surface_meta'']"
    using entry_labels_block [of "''surface_meta''" "''{ title: '' @
             formatValue ns (JStr (surface_title (surface d))) 1 @ '', route: '' @
             formatValue ns (JStr (surface_route (surface d))) 1 @ '' }''"]
    by (simp add: is_label_char_def in_range_def cont_ok_plain isIdentifier_plain
          JSON_stringify_plain)
  have 2: "entry_labels (INDENT @ ''meta { document_id: '' @
             formatValue ns (JStr (document_id (meta d))) 1 @ '', revision: '' @
             ns (revision (meta d)) @ '', created_by: '' @
             formatValue ns (JStr (created_by (meta d))) 1 @ '' }'') = [''meta'']"
    using entry_labels_block [of "''meta''" "''{ document_id: '' @
             formatValue ns (JStr (document_id (meta d))) 1 @ '', revision: '' @
             ns (revision (meta d)) @ '', created_by: '' @
             formatValue ns (JStr (created_by (meta d))) 1 @ '' }''"]
    by (simp add: is_label_char_def in_range_def cont_ok_plain isIdentifier_plain
          JSON_stringify_plain ns)
  have 3: "entry_labels (INDENT @ ''theme { profile: '' @
             formatValue ns (JStr (ThemeProfile_str (profile (theme d)))) 1 @ '' density: '' @
             formatValue ns (JStr (Density_str (density (theme d)))) 1 @ '' }'') = [''theme'']"
    using entry_labels_block [of "''theme''" "''{ profile: '' @
             formatValue ns (JStr (ThemeProfile_str (profile (theme d)))) 1 @ '' density: '' @
             formatValue ns (JStr (Density_str (density (theme d)))) 1 @ '' }''"]
    by (simp add: is_label_char_def in_range_def cont_ok_plain isIdentifier_plain
          JSON_stringify_plain)
  have "cont_ok 2 (''{ profile: '' @
             formatValue ns (JStr (ThemeProfile_str (profile (theme d)))) 1 @ '' density: '' @
             formatValue ns (JStr (Density_str (density (theme d)))) 1 @ '' tokens '' @
             formatObject ns (string_record (tokens (theme d))) 1 @ '' }'')"
    by (intro cont_ok_append formatValue_JStr_cont formatObject_cont_1 ns cont_ok_plain) simp_all
  from entry_labels_block [OF _ _ this, of "''theme''"]
  have 4: "entry_labels (INDENT @ ''theme { profile: '' @
             formatValue ns (JStr (ThemeProfile_str (profile (theme d)))) 1 @ '' density: '' @
             formatValue ns (JStr (Density_str (density (theme d)))) 1 @ '' tokens '' @
             formatObject ns (string_record (tokens (theme d))) 1 @ '' }'') = [''theme'']"
    by (simp add: is_label_char_def in_range_def)
  have 5: "lines_labels (pushOptionalObjectBlock ns ls' ''layout_constraints'' v 1) =
           lines_labels ls' @ (if v = [] then [] else [''layout_constraints''])" for ls' v
    by (rule labels_optional_outer [OF ns]) (simp_all add: is_label_char_def in_range_def)
  have 6: "lines_labels (pushOptionalObjectBlock ns ls' ''state'' v 1) =
           lines_labels ls' @ (if v = [] then [] else [''state''])" for ls' v
    by (rule labels_optional_outer [OF ns]) (simp_all add: is_label_char_def in_range_def)
  have 7: "lines_labels (if c then ls' @ [a] else ls' @ [b]) =
           lines_labels ls' @ (if c then entry_labels a else entry_labels b)" for c ls' a b
    by simp
  have 8: "entry_labels ''}'' = []"
    by (simp add: entry_labels_def block_label_def List.map_filter_def)
  show ?thesis
    unfolding document_lines_def Let_def
    apply (simp only: lines_labels_simps(3) 7 5 6 foldl_emit_action_labels [OF ns]
          foldl_emit_node_labels [OF ns] foldl_emit_binding_labels [OF ns])
    apply (simp only: lines_labels_simps 0 1 2 3 4 8 append_Nil append_Nil2 if_cancel)
    apply (simp only: append_Cons append_Nil append_assoc)
    done
qed

text \<open>
  C3, as the code has it. The printer opens the blocks of a surface in this order:
  \<^verbatim>\<open>surface_meta\<close>, \<^verbatim>\<open>meta\<close>, \<^verbatim>\<open>theme\<close>, \<^verbatim>\<open>layout_constraints\<close> when the
  document has any, \<^verbatim>\<open>state\<close> when the document has locals, then one \<^verbatim>\<open>action\<close>
  block for each action, then one \<^verbatim>\<open>node\<close> block for each node, then one
  \<^verbatim>\<open>binding\<close> block for each binding; and nothing else in the text opens a block at
  that level. (The rendering of a number contains no line feed.)
\<close>

theorem block_order_of_text:
  assumes "\<And>n. CHR 0x0A \<notin> set (ns n)"
  shows "block_labels (serializeDuiDslDocument ns d) =
     [''surface_meta'', ''meta'', ''theme''] @
     (if layout_constraints d = [] then [] else [''layout_constraints'']) @
     (if locals (state d) = [] then [] else [''state'']) @
     replicate (length (actions d)) ''action'' @
     replicate (length (nodes d)) ''node'' @
     replicate (length (bindings d)) ''binding''"
  unfolding serializeDuiDslDocument_def block_labels_join
  using document_labels [where ns = ns and d = d] assms by (simp add: lines_labels_def)

theorem block_order_of_text_witness:
  "(\<forall>n. CHR 0x0A \<notin> set (String_int n)) \<and>
   block_labels (serializeDuiDslDocument String_int sample_document) =
     [''surface_meta'', ''meta'', ''theme'', ''state'', ''action'', ''node'', ''node'',
      ''binding'']"
  using block_order_of_text [where ns = String_int and d = sample_document] String_int_plain
  by (simp add: sample_document_def)

text \<open>
  C3, as the specification states it, fails on the example document, which has two
  nodes: its action block comes before its node blocks, so even the blocks the grammar
  knows are not in the grammar's order.
\<close>

theorem block_order_counterexample:
  "\<not> grammar_block_order (grammar_blocks
        (block_labels (serializeDuiDslDocument String_int sample_document)))"
  by code_simp

section \<open>The dashboard renderer: properties\<close>

subsection \<open>The column count\<close>

text \<open>
  C6, as the code has it. The renderer clamps \<^verbatim>\<open>max_columns\<close> to the range from 1
  to 4: for a number \<open>n\<close> between 1 and 6 the zone column count is the smaller of
  \<open>n\<close> and 4, which is \<open>n\<close> itself exactly when \<open>n\<close> is at most 4.
\<close>

theorem maxColumns_clamped:
  assumes "map_of (manifest_layout_constraints m) ''max_columns'' = Some (JNum n)"
    and "1 \<le> n" and "n \<le> 6"
  shows "maxColumns m = min 4 n \<and> (maxColumns m = n \<longleftrightarrow> n \<le> 4)"
  using assms by (auto simp: maxColumns_def)

theorem maxColumns_clamped_witness:
  "map_of (manifest_layout_constraints (sample_manifest :: rat UiManifest)) ''max_columns'' =
     Some (JNum 5) \<and>
   (1::rat) \<le> 5 \<and> (5::rat) \<le> 6 \<and>
   maxColumns sample_manifest = min 4 5 \<and> maxColumns sample_manifest = 4"
proof -
  have a: "map_of (manifest_layout_constraints (sample_manifest :: rat UiManifest)) ''max_columns'' =
           Some (JNum 5)"
    by (simp add: sample_manifest_def)
  from maxColumns_clamped [OF a] show ?thesis using a by simp
qed

text \<open>
  C6, as the specification states it, fails for the example manifest: it asks for five
  columns, within 1..6, and the renderer uses four.
\<close>

theorem maxColumns_counterexample:
  "map_of (manifest_layout_constraints (sample_manifest :: rat UiManifest)) ''max_columns'' =
     Some (JNum 5) \<and>
   (1::rat) \<le> 5 \<and> (5::rat) \<le> 6 \<and> maxColumns sample_manifest \<noteq> 5"
  by (simp add: sample_manifest_def maxColumns_def)

subsection \<open>Sections and loose widgets\<close>

lemma widgetMap_get_Some:
  "widgetMap_get ws i = Some w \<Longrightarrow> w \<in> set ws \<and> widget_id w = i"
  unfolding widgetMap_get_def by (auto dest!: map_of_SomeD)

lemma widgetMap_get_None:
  "widgetMap_get ws i = None \<longleftrightarrow> i \<notin> widget_id ` set ws"
  unfolding widgetMap_get_def by (simp add: map_of_eq_None_iff image_image)

lemma map_filter_ids:
  "map widget_id (List.map_filter (widgetMap_get ws) ids) =
   filter (\<lambda>i. i \<in> widget_id ` set ws) ids"
proof (induction ids)
  case Nil
  then show ?case by (simp add: List.map_filter_def)
next
  case (Cons i ids)
  show ?case
  proof (cases "widgetMap_get ws i")
    case None
    with Cons show ?thesis
      by (simp add: List.map_filter_def widgetMap_get_None)
  next
    case (Some w)
    then have "widget_id w = i" "i \<in> widget_id ` set ws"
      using widgetMap_get_Some [OF Some] by auto
    with Cons Some show ?thesis
      by (simp add: List.map_filter_def)
  qed
qed

lemma map_filter_members:
  "c \<in> set (List.map_filter (widgetMap_get ws) ids) \<Longrightarrow> c \<in> set ws \<and> widget_id c \<in> set ids"
  by (auto simp: List.map_filter_def dest: widgetMap_get_Some)

lemma zone_widget_ids:
  "i \<in> widget_id ` set (zone_widgets m z) \<longleftrightarrow>
   (\<exists>w \<in> set (widgets m). widget_id w = i \<and> zone w = z)"
  by (auto simp: zone_widgets_def)

text \<open>
  C8. In each zone the section blocks are the sections of the zone, in order. The
  children of a block are, in the order of \<^verbatim>\<open>child_widget_ids\<close>, exactly the ids that
  name a widget of the section's zone, each rendered as a widget of the manifest in
  that zone; the other ids are dropped. No loose widget of the zone has the id of a
  child of any block of the zone, so a child is not among the loose widgets.
\<close>

theorem section_children_and_loose_widgets:
  "map fst (sectionBlocks m z) = zone_sections m z \<and>
   (\<forall>(s, cs) \<in> set (sectionBlocks m z).
      section_zone s = z \<and>
      map widget_id cs =
        filter (\<lambda>i. \<exists>w \<in> set (widgets m). widget_id w = i \<and> zone w = section_zone s)
          (child_widget_ids s) \<and>
      (\<forall>c \<in> set cs.
         c \<in> set (widgets m) \<and> zone c = z \<and> c \<notin> set (looseWidgets m z) \<and>
         (\<forall>w \<in> set (looseWidgets m z). widget_id w \<noteq> widget_id c)))"
proof (intro conjI ballI)
  show "map fst (sectionBlocks m z) = zone_sections m z"
    by (simp add: sectionBlocks_def comp_def)
next
  fix b assume b: "b \<in> set (sectionBlocks m z)"
  obtain s cs where sc: "b = (s, cs)" by (cases b)
  from b sc have s: "s \<in> set (zone_sections m z)"
    and cs: "cs = List.map_filter (widgetMap_get (zone_widgets m z)) (child_widget_ids s)"
    by (auto simp: sectionBlocks_def)
  from s have z: "section_zone s = z" by (simp add: zone_sections_def)
  have ids: "map widget_id cs =
        filter (\<lambda>i. \<exists>w \<in> set (widgets m). widget_id w = i \<and> zone w = section_zone s)
          (child_widget_ids s)"
    unfolding cs map_filter_ids z by (simp add: zone_widget_ids)
  have ch: "c \<in> set (widgets m) \<and> zone c = z \<and> c \<notin> set (looseWidgets m z) \<and>
            (\<forall>w \<in> set (looseWidgets m z). widget_id w \<noteq> widget_id c)" if c: "c \<in> set cs" for c
  proof -
    from c cs have "c \<in> set (zone_widgets m z)"
      using map_filter_members by blast
    then have 1: "c \<in> set (widgets m)" "zone c = z" by (auto simp: zone_widgets_def)
    from b sc c have used: "widget_id c \<in> set (usedWidgetIds m z)"
      by (force simp: usedWidgetIds_def)
    then have 2: "\<forall>w \<in> set (looseWidgets m z). widget_id w \<noteq> widget_id c"
      by (auto simp: looseWidgets_def)
    then have "c \<notin> set (looseWidgets m z)" by auto
    with 1 2 show ?thesis by simp
  qed
  show "case b of (s, cs) \<Rightarrow>
      section_zone s = z \<and>
      map widget_id cs =
        filter (\<lambda>i. \<exists>w \<in> set (widgets m). widget_id w = i \<and> zone w = section_zone s)
          (child_widget_ids s) \<and>
      (\<forall>c \<in> set cs.
         c \<in> set (widgets m) \<and> zone c = z \<and> c \<notin> set (looseWidgets m z) \<and>
         (\<forall>w \<in> set (looseWidgets m z). widget_id w \<noteq> widget_id c))"
    unfolding sc using z ids ch by simp
qed

theorem section_children_and_loose_widgets_witness:
  "sectionBlocks (sample_manifest :: rat UiManifest) Zone_content =
     [(practice_section, [path_widget])] \<and>
   looseWidgets (sample_manifest :: rat UiManifest) Zone_content = [progress_widget] \<and>
   map widget_id [path_widget :: rat WidgetConfig] =
     filter (\<lambda>i. i = ''path'') (child_widget_ids (practice_section :: rat SectionConfig)) \<and>
   (path_widget :: rat WidgetConfig) \<notin> set (looseWidgets sample_manifest Zone_content)"
proof -
  have sb: "sectionBlocks (sample_manifest :: rat UiManifest) Zone_content =
            [(practice_section, [path_widget])]"
    by (simp add: sectionBlocks_def zone_sections_def zone_widgets_def sample_manifest_def
          practice_section_def progress_widget_def path_widget_def streak_widget_def
          widgetMap_get_def List.map_filter_def)
  have lw: "looseWidgets (sample_manifest :: rat UiManifest) Zone_content = [progress_widget]"
    by (simp add: looseWidgets_def usedWidgetIds_def sb)
       (simp add: zone_widgets_def sample_manifest_def progress_widget_def path_widget_def
          streak_widget_def)
  have "(path_widget :: rat WidgetConfig) \<notin> set (looseWidgets sample_manifest Zone_content)"
    using section_children_and_loose_widgets [of "sample_manifest :: rat UiManifest" Zone_content]
    unfolding sb by simp
  then show ?thesis
    using sb lw by (simp add: practice_section_def path_widget_def)
qed

section \<open>The DSL editor: properties\<close>

lemmas handler_defs =
  handleGenerateDslFromPrompt_def handleParseDslSource_def handleValidateDslDocument_def
  handleCommitDslDocument_def handleLoadCurrentDsl_def handleRevertManifest_def
  generated_def parsed_def validated_def committed_def commit_history_loaded_def
  current_loaded_def reverted_def revert_history_loaded_def failed_def clearPreview_def
  sourceChanged_def send_def finish_def resetDslValidationState_def
  applyDslValidationState_def

lemma most_recent_validation_Cons:
  "most_recent_validation (e # es) v = most_recent_validation es (most_recent_validation [e] v)"
  by (cases e) simp_all

lemma step_verdict:
  assumes "step ns e s = Some s'" and "e \<noteq> Click_ClearPreview"
  shows "dslValidationValid s' = most_recent_validation [e] (dslValidationValid s)"
  using assms
  by (cases e) (auto simp: handler_defs Let_def split: if_splits option.splits)

lemma run_verdict:
  assumes "run ns tr s0 = Some s" and "Click_ClearPreview \<notin> set tr"
  shows "dslValidationValid s = most_recent_validation tr (dslValidationValid s0)"
  using assms
proof (induction tr arbitrary: s0)
  case Nil
  then show ?case by simp
next
  case (Cons e es)
  from Cons.prems obtain s1 where s1: "step ns e s0 = Some s1" and r: "run ns es s1 = Some s"
    by (auto split: option.splits)
  from Cons.prems have ne: "e \<noteq> Click_ClearPreview" and nes: "Click_ClearPreview \<notin> set es"
    by auto
  have "dslValidationValid s = most_recent_validation es (dslValidationValid s1)"
    by (rule Cons.IH [OF r nes])
  also have "dslValidationValid s1 = most_recent_validation [e] (dslValidationValid s0)"
    by (rule step_verdict [OF s1 ne])
  finally show ?case by (simp add: most_recent_validation_Cons [of e es])
qed

text \<open>
  C4, what the Commit button ensures. The button looks at the recorded verdict
  \<^verbatim>\<open>dslValidationValid\<close>: when it is \<^verbatim>\<open>false\<close> the button is disabled and no commit
  is sent; when it is \<^verbatim>\<open>true\<close>, with or without warnings, the verdict does not
  disable the button. On a run without \<^verbatim>\<open>Clear Preview\<close> the recorded verdict is the
  most recent validation result for the current draft, so there a draft found invalid
  is not committed and warnings do not stand in the way.
\<close>

theorem commit_blocked_by_recorded_verdict:
  assumes "run ns tr s0 = Some s" and "Click_ClearPreview \<notin> set tr"
  shows "dslValidationValid s = most_recent_validation tr (dslValidationValid s0) \<and>
     (dslValidationValid s = Some False \<longrightarrow>
        Commit_disabled s \<and> step ns Click_Commit s = None) \<and>
     (dslValidationValid s = Some True \<longrightarrow>
        (Commit_disabled s \<longleftrightarrow> busy s \<or> dslDraft s = None \<or> dslSourceDirty s))"
  using run_verdict [OF assms] by (simp add: Commit_disabled_def)

theorem commit_blocked_by_recorded_verdict_witness:
  "dslValidationValid
     (the (run String_int [Click_Generate, Resolve_Generate invalid_intent_response] sample_state))
     = Some False \<and>
   step String_int Click_Commit
     (the (run String_int [Click_Generate, Resolve_Generate invalid_intent_response] sample_state))
     = None \<and>
   dslValidationValid
     (the (run String_int [Click_Generate, Resolve_Generate invalid_intent_response,
        Click_Validate, Resolve_Validate warned_validate_response] sample_state))
     = Some True \<and>
   \<not> Commit_disabled
     (the (run String_int [Click_Generate, Resolve_Generate invalid_intent_response,
        Click_Validate, Resolve_Validate warned_validate_response] sample_state))"
proof -
  let ?t1 = "[Click_Generate, Resolve_Generate invalid_intent_response]"
  let ?t2 = "[Click_Generate, Resolve_Generate invalid_intent_response,
        Click_Validate, Resolve_Validate warned_validate_response]"
  have v0: "dslValidationValid sample_state = None"
    by (simp add: sample_state_def loaded_def)
  have "run String_int ?t1 sample_state \<noteq> None"
    by (simp add: sample_state_def loaded_def Generate_disabled_def trim_nonempty_def
          is_white_space_def in_range_def handler_defs)
  then obtain s1 where s1: "run String_int ?t1 sample_state = Some s1" by auto
  have "run String_int ?t2 sample_state \<noteq> None"
    by (simp add: sample_state_def loaded_def Generate_disabled_def Validate_disabled_def
          trim_nonempty_def is_white_space_def in_range_def handler_defs)
  then obtain s2 where s2: "run String_int ?t2 sample_state = Some s2" by auto
  have b2: "\<not> busy s2 \<and> dslDraft s2 \<noteq> None \<and> \<not> dslSourceDirty s2"
    using s2
    by (auto simp: sample_state_def loaded_def Generate_disabled_def Validate_disabled_def
          trim_nonempty_def is_white_space_def in_range_def handler_defs
          warned_validate_response_def)
  have 1: "dslValidationValid s1 = Some False \<and> step String_int Click_Commit s1 = None"
    using commit_blocked_by_recorded_verdict [OF s1] v0
    by (simp add: invalid_intent_response_def)
  have 2: "dslValidationValid s2 = Some True \<and> \<not> Commit_disabled s2"
    using commit_blocked_by_recorded_verdict [OF s2] v0 b2
    by (simp add: warned_validate_response_def)
  show ?thesis unfolding s1 s2 option.sel using 1 2 by blast
qed

text \<open>
  Three events take a verdict back to unknown. The responses to \<^verbatim>\<open>Commit DSL\<close> and to
  \<^verbatim>\<open>Load Current DSL\<close> replace the draft by the document they bring; \<^verbatim>\<open>Clear Preview\<close>
  alone forgets the verdict and keeps the draft it was given for.
\<close>

lemma verdict_forgotten:
  assumes "step ns e s = Some s'"
    and "dslValidationValid s \<noteq> None" and "dslValidationValid s' = None"
  shows "(e = Click_ClearPreview \<and> dslDraft s' = dslDraft s) \<or>
     (\<exists>r. e = Resolve_Commit r \<and> dslDraft s' = Some (commit_document r)) \<or>
     (\<exists>d dh. e = Resolve_LoadCurrent d dh \<and> dslDraft s' = Some d)"
  using assms
  by (cases e) (auto simp: handler_defs Let_def split: if_splits option.splits)

text \<open>
  C4 fails in the code. The page shows the example document; the response to
  \<^verbatim>\<open>Generate DSL\<close> brings a draft with an error, and the Commit button is disabled.
  \<^verbatim>\<open>Clear Preview\<close> resets the recorded verdict and keeps the draft: the most recent
  validation result for the draft is still invalid, the button is enabled again, and a
  click on \<^verbatim>\<open>Commit DSL\<close> sends the invalid draft.
\<close>

theorem commit_after_clear_preview_counterexample:
  "most_recent_validation
     [Click_Generate, Resolve_Generate invalid_intent_response, Click_ClearPreview] None
     = Some False \<and>
   map_option pending
     (run String_int
        [Click_Generate, Resolve_Generate invalid_intent_response, Click_ClearPreview,
         Click_Commit] sample_state)
     = Some (Some (P_Commit sample_document_later))"
  by (simp add: sample_state_def loaded_def Generate_disabled_def Commit_disabled_def
        trim_nonempty_def is_white_space_def in_range_def handler_defs
        invalid_intent_response_def)



section \<open>The revision engine: properties\<close>

text \<open>
  C7. Reverting to a stored revision succeeds; it stores a new revision, numbered one
  above the current one, whose document is the target's, and makes it current; every
  revision stored up to the old current one is still stored, unchanged.
\<close>

theorem revert_appends_revision:
  assumes "stored st t = Some r"
  shows "\<exists>r' st'. revert t now st = Inr (r', st') \<and>
     current_revision st' = current_revision st + 1 \<and>
     stored st' (current_revision st + 1) = Some r' \<and>
     rev_document r' = rev_document r \<and>
     (\<forall>k. k \<le> current_revision st \<longrightarrow> stored st' k = stored st k)"
  using assms by (simp add: revert_def Let_def)

theorem revert_appends_revision_witness:
  "stored sample_store 1 = Some (sample_revision ''one'') \<and>
   (\<exists>r' st'. revert 1 ''2026-02-09T09:00:00Z'' sample_store = Inr (r', st') \<and>
      current_revision st' = 4 \<and> stored st' 4 = Some r' \<and> rev_document r' = ''one'' \<and>
      stored st' 2 = Some (sample_revision ''two'') \<and>
      stored st' 3 = Some (sample_revision ''three''))"
proof -
  have a: "stored sample_store 1 = Some (sample_revision ''one'')"
    by (simp add: sample_store_def)
  from revert_appends_revision [OF a, of "''2026-02-09T09:00:00Z''"]
  obtain r' st' where r: "revert 1 ''2026-02-09T09:00:00Z'' sample_store = Inr (r', st')"
    and c: "current_revision st' = current_revision sample_store + 1"
    and n: "stored st' (current_revision sample_store + 1) = Some r'"
    and d: "rev_document r' = rev_document (sample_revision ''one'')"
    and k: "\<forall>k. k \<le> current_revision sample_store \<longrightarrow> stored st' k = stored sample_store k"
    by blast
  have cur: "current_revision sample_store = 3" by (simp add: sample_store_def)
  have "stored st' 2 = stored sample_store 2" "stored st' 3 = stored sample_store 3"
    using k cur by simp_all
  then have "stored st' 2 = Some (sample_revision ''two'')"
    "stored st' 3 = Some (sample_revision ''three'')"
    by (simp_all add: sample_store_def)
  with a r c n d cur show ?thesis
    by (simp add: sample_revision_def)
qed

lemma apply_ops_error:
  "apply_ops f i ops d = Inl err \<Longrightarrow>
   \<exists>j reason dj. err = PatchError (i + j) reason \<and> j < length ops \<and>
     apply_ops f i (take j ops) d = Inr dj \<and> f (ops ! j) dj = Inl reason"
proof (induction ops arbitrary: i d)
  case Nil
  then show ?case by simp
next
  case (Cons op ops)
  show ?case
  proof (cases "f op d")
    case (Inl reason)
    with Cons.prems have "err = PatchError (i + 0) reason" by simp
    with Inl show ?thesis by (intro exI [of _ 0]) simp
  next
    case (Inr d1)
    with Cons.prems have "apply_ops f (i + 1) ops d1 = Inl err" by simp
    from Cons.IH [OF this] obtain j reason dj
      where "err = PatchError (i + 1 + j) reason" "j < length ops"
        "apply_ops f (i + 1) (take j ops) d1 = Inr dj" "f (ops ! j) dj = Inl reason"
      by blast
    with Inr show ?thesis by (intro exI [of _ "Suc j"]) simp
  qed
qed

text \<open>
  C5. A call of \<^verbatim>\<open>apply\<close> ends in one of two ways. Either every operation of the
  batch applied, in order, the resulting document passes the validator, and it is
  stored as the next revision. Or the call fails and the surface is exactly what it was
  before the call: with the index and the reason of the first operation that failed
  (all the operations before it having applied), or because the result of the whole
  batch is invalid, or because the expected base revision is not the current one.
\<close>

theorem apply_patch_atomic:
  "(\<exists>d'. apply_patch f validate st ops expected =
            (Inr d', \<lparr>current_document = d', base_revision = base_revision st + 1\<rparr>) \<and>
          apply_ops f 0 ops (current_document st) = Inr d' \<and> validate d') \<or>
   (\<exists>err. apply_patch f validate st ops expected = (Inl err, st) \<and>
      (case err of
         PatchError j reason \<Rightarrow>
           j < length ops \<and>
           (\<exists>dj. apply_ops f 0 (take j ops) (current_document st) = Inr dj \<and>
                 f (ops ! j) dj = Inl reason)
       | InvalidAggregate \<Rightarrow>
           (\<exists>d'. apply_ops f 0 ops (current_document st) = Inr d' \<and> \<not> validate d')
       | ConcurrencyConflict \<Rightarrow> expected \<noteq> base_revision st))"
proof (cases "expected = base_revision st")
  case False
  then show ?thesis by (simp add: apply_patch_def)
next
  case True
  show ?thesis
  proof (cases "apply_ops f 0 ops (current_document st)")
    case (Inl err)
    from apply_ops_error [OF Inl] obtain j reason dj
      where "err = PatchError j reason" "j < length ops"
        "apply_ops f 0 (take j ops) (current_document st) = Inr dj" "f (ops ! j) dj = Inl reason"
      by auto
    with True Inl show ?thesis by (simp add: apply_patch_def)
  next
    case (Inr d')
    with True show ?thesis by (cases "validate d'") (simp_all add: apply_patch_def)
  qed
qed

theorem apply_patch_atomic_witness:
  "apply_patch node_apply_op node_validate \<lparr>current_document = [''root'', ''intro''], base_revision = 7\<rparr>
     [Create_node ''summary'', Delete_node ''root'', Create_node ''footer''] 7 =
     (Inl (PatchError 1 ProtectedNode), \<lparr>current_document = [''root'', ''intro''], base_revision = 7\<rparr>) \<and>
   apply_patch node_apply_op node_validate \<lparr>current_document = [''root'', ''intro''], base_revision = 7\<rparr>
     [Create_node ''summary'', Delete_node ''intro''] 7 =
     (Inr [''root'', ''summary''], \<lparr>current_document = [''root'', ''summary''], base_revision = 8\<rparr>)"
  using apply_patch_atomic [of node_apply_op node_validate
      "\<lparr>current_document = [''root'', ''intro''], base_revision = 7\<rparr>"
      "[Create_node ''summary'', Delete_node ''root'', Create_node ''footer'']" 7]
  by (simp add: apply_patch_def node_apply_op_def node_validate_def)

section \<open>The text determines the printed fields\<close>

subsection \<open>The reader on printed values\<close>

lemma push_simps [simp]:
  "push [] x = x" "push a (push b x) = push (a @ b) x"
  "push ts None = None" "push ts (Some u) = Some (ts @ u)"
  by (cases x; simp add: push_def)+

lemma map_option_push:
  "map_option ((#) t) x = push [t] x"
  "map_option (\<lambda>u. t # u) x = push [t] x"
  "map_option (flush w) x = push (flush w []) x"
  "map_option (\<lambda>u. flush w (t # u)) x = push (flush w [t]) x"
  by (cases x; simp add: push_def flush_def)+

lemma flush_Nil [simp]: "flush [] ts = ts"
  by (simp add: flush_def)

lemma bdry_simps [simp]:
  "bdry []" "bdry (c # cs) = is_delim c"
  by (simp_all add: bdry_def)

lemma lex_delims [simp]:
  "lex (In_word w) (CHR '' '' # cs) = push (flush w []) (lex (In_word []) cs)"
  "lex (In_word w) (CHR 0x0A # cs) = push (flush w []) (lex (In_word []) cs)"
  "lex (In_word w) (CHR ''{'' # cs) = push (flush w [LBrace]) (lex (In_word []) cs)"
  "lex (In_word w) (CHR ''}'' # cs) = push (flush w [RBrace]) (lex (In_word []) cs)"
  "lex (In_word w) (CHR ''['' # cs) = push (flush w [LBrack]) (lex (In_word []) cs)"
  "lex (In_word w) (CHR '']'' # cs) = push (flush w [RBrack]) (lex (In_word []) cs)"
  "lex (In_word w) (CHR '':'' # cs) = push (flush w [Colon]) (lex (In_word []) cs)"
  "lex (In_word w) (CHR '','' # cs) = push (flush w [Comma]) (lex (In_word []) cs)"
  "lex (In_word w) (CHR 0x22 # cs) = push (flush w []) (lex (In_string []) cs)"
  by (simp_all add: map_option_push)

lemma lex_nondelim: "\<not> is_delim c \<Longrightarrow> lex (In_word w) (c # cs) = lex (In_word (c # w)) cs"
  by (simp add: is_delim_def)

lemma lex_word_end [simp]: "lex (In_word w) [] = Some (flush w [])"
  by simp

lemma lex_word_chars:
  "\<forall>c \<in> set s. \<not> is_delim c \<Longrightarrow> lex (In_word w) (s @ r) = lex (In_word (rev s @ w)) r"
  by (induction s arbitrary: w) (simp_all add: lex_nondelim del: lex.simps)

lemma lex_flush:
  assumes "bdry r"
  shows "lex (In_word w) r = push (flush w []) (lex (In_word []) r)"
proof (cases r)
  case Nil
  then show ?thesis by simp
next
  case (Cons c cs)
  with assms have "is_delim c" by simp
  then consider "c = CHR '' ''" | "c = CHR 0x0A" | "c = CHR ''{''" | "c = CHR ''}''"
    | "c = CHR ''[''" | "c = CHR '']''" | "c = CHR '':''" | "c = CHR '',''" | "c = CHR 0x22"
    unfolding is_delim_def by blast
  then show ?thesis
    unfolding Cons
    by cases (simp_all add: flush_def del: lex.simps)
qed

lemma lexes_word:
  assumes "s \<noteq> []" and "\<forall>c \<in> set s. \<not> is_delim c"
  shows "lexes s [Word s]"
  unfolding lexes_def
proof (intro allI impI)
  fix r assume "bdry r"
  have "lex (In_word []) (s @ r) = lex (In_word (rev s)) r"
    using lex_word_chars [OF assms(2), of "[]" r] by simp
  also have "\<dots> = push (flush (rev s) []) (lex (In_word []) r)"
    using \<open>bdry r\<close> by (rule lex_flush)
  finally show "lex (In_word []) (s @ r) = push [Word s] (lex (In_word []) r)"
    using assms(1) by (simp add: flush_def)
qed

lemma hex_value_digits: "\<forall>m \<in> set [0..<16]. hex_value (''0123456789abcdef'' ! m) = m"
  by (simp add: upt_rec hex_value_def in_range_def)

lemma hex_value_hex_digit: "hex_value (hex_digit n) = n mod 16"
  using hex_value_digits by (simp add: hex_digit_def)

lemma lex_quote_unit:
  "lex (In_string a) (quote_unit c @ r) = lex (In_string (c # a)) r"
proof -
  consider "c = CHR 0x08" | "c = CHR 0x09" | "c = CHR 0x0A" | "c = CHR 0x0C" | "c = CHR 0x0D"
    | "c = CHR 0x22" | "c = CHR 0x5C"
    | (ctl) "c \<notin> {CHR 0x08, CHR 0x09, CHR 0x0A, CHR 0x0C, CHR 0x0D, CHR 0x22, CHR 0x5C}"
        "(of_char c :: nat) < 32"
    | (plain) "c \<notin> {CHR 0x08, CHR 0x09, CHR 0x0A, CHR 0x0C, CHR 0x0D, CHR 0x22, CHR 0x5C}"
        "\<not> (of_char c :: nat) < 32"
    by blast
  then show ?thesis
  proof cases
    case ctl
    have "16 * ((of_char c :: nat) div 16 mod 16) + of_char c mod 16 = of_char c"
      using ctl(2) by simp
    then have u: "char_of (16 * hex_value (hex_digit (of_char c div 16)) +
        hex_value (hex_digit (of_char c))) = c"
      by (simp add: hex_value_hex_digit)
    have q: "quote_unit c = [CHR 0x5C, CHR ''u'', CHR ''0'', CHR ''0'',
              hex_digit (of_char c div 16), hex_digit (of_char c)]"
      using ctl by (simp add: quote_unit_def)
    show ?thesis unfolding q by (simp add: u)
  next
    case plain
    then have q: "quote_unit c = [c]" by (simp add: quote_unit_def)
    show ?thesis unfolding q using plain(1) by simp
  qed (simp_all add: quote_unit_def unescape_def)
qed

lemma lex_string_body:
  "lex (In_string a) (concat (map quote_unit s) @ CHR 0x22 # r) =
   push [Str (rev a @ s)] (lex (In_word []) r)"
  by (induction s arbitrary: a) (simp_all add: lex_quote_unit map_option_push)

lemma closed_JSON_stringify: "closed (JSON_stringify s) [Str s]"
  unfolding closed_def
  by (simp add: JSON_stringify_def lex_string_body del: lex.simps)

lemma closed_Nil: "closed [] []"
  by (simp add: closed_def)

lemma closed_append: "closed s1 t1 \<Longrightarrow> closed s2 t2 \<Longrightarrow> closed (s1 @ s2) (t1 @ t2)"
  by (simp add: closed_def)

lemma closed_lexes: "closed s1 t1 \<Longrightarrow> lexes s2 t2 \<Longrightarrow> lexes (s1 @ s2) (t1 @ t2)"
  by (simp add: closed_def lexes_def)

lemma lexes_closed:
  assumes "lexes s1 t1" and "closed s2 t2" and "s2 \<noteq> []" and "is_delim (hd s2)"
  shows "closed (s1 @ s2) (t1 @ t2)"
  unfolding closed_def
proof
  fix r
  from assms(3,4) have "bdry (s2 @ r)" by (cases s2) simp_all
  with assms(1) have "lex (In_word []) (s1 @ s2 @ r) = push t1 (lex (In_word []) (s2 @ r))"
    by (simp add: lexes_def)
  with assms(2) show "lex (In_word []) ((s1 @ s2) @ r) = push (t1 @ t2) (lex (In_word []) r)"
    by (simp add: closed_def)
qed

lemma closed_imp_lexes: "closed s t \<Longrightarrow> lexes s t"
  by (simp add: closed_def lexes_def)

lemma closed_delims:
  "closed '' '' []" "closed [CHR 0x0A] []" "closed '','' [Comma]" "closed '':'' [Colon]"
  "closed ''['' [LBrack]" "closed '']'' [RBrack]" "closed ''{'' [LBrace]" "closed ''}'' [RBrace]"
  by (simp_all add: closed_def del: lex.simps)

lemma closed_spaces: "closed (replicate k CHR '' '') []"
  by (induction k) (simp_all add: closed_def del: lex.simps)

lemma closed_repeat_INDENT: "closed (repeat INDENT k) []"
proof -
  have "repeat INDENT k = replicate (2 * k) CHR '' ''"
    by (induction k) (simp_all add: INDENT_def repeat.simps)
  then show ?thesis by (simp add: closed_spaces)
qed

lemma ident_tail_not_delim: "ident_tail c \<Longrightarrow> \<not> is_delim c"
  by (auto simp: ident_tail_def is_delim_def in_range_def)

lemma ident_head_imp_tail: "ident_head c \<Longrightarrow> ident_tail c"
  by (auto simp: ident_tail_def ident_head_def)

lemma isIdentifier_chars: "isIdentifier s \<Longrightarrow> s \<noteq> [] \<and> (\<forall>c \<in> set s. \<not> is_delim c)"
  by (cases s)
     (auto simp: isIdentifier_def IDENTIFIER_RE_def list_all_iff
        dest: ident_tail_not_delim ident_head_imp_tail)

lemma lexes_word_token: "lexes (if isIdentifier s then s else JSON_stringify s) [word_token s]"
  by (simp add: word_token_def lexes_word isIdentifier_chars closed_imp_lexes
        closed_JSON_stringify)

lemma lexes_formatKey: "lexes (formatKey k) [word_token k]"
  using lexes_word_token [of k] by (simp add: formatKey_def)

lemma lexes_formatIdentifier: "lexes (formatIdentifier k) [word_token k]"
  using lexes_word_token [of k] by (simp add: formatIdentifier_def)

lemma lexes_join:
  assumes sep: "closed sep [Comma]" "sep \<noteq> []" "is_delim (hd sep)"
    and xs: "\<And>x. x \<in> set xs \<Longrightarrow> lexes (f x) (g x)"
  shows "lexes (join sep (map f xs)) (commas (map g xs))"
  using xs
proof (induction xs rule: induct_list012)
  case 1
  then show ?case by (simp add: closed_imp_lexes closed_Nil)
next
  case (2 x)
  then show ?case by simp
next
  case (3 x y zs)
  have a: "closed (f x @ sep) (g x @ [Comma])"
    using 3(3) [of x] sep by (intro lexes_closed) simp_all
  have b: "lexes (join sep (map f (y # zs))) (commas (map g (y # zs)))"
    using 3 by simp
  from closed_lexes [OF a b] show ?case by simp
qed

lemma closed_block:
  assumes J: "lexes J ts" and op: "closed [op] [o_tok]" and cl: "closed [c] [c_tok]"
    and c: "is_delim c"
  shows "closed (op # CHR 0x0A # J @ CHR 0x0A # repeat INDENT k @ [c]) (o_tok # ts @ [c_tok])"
proof -
  have 1: "closed ([op] @ [CHR 0x0A]) ([o_tok] @ [])"
    by (intro closed_append op closed_delims)
  have 2: "closed ([CHR 0x0A] @ repeat INDENT k @ [c]) ([] @ [] @ [c_tok])"
    by (intro closed_append closed_delims closed_repeat_INDENT cl)
  have 3: "closed (J @ [CHR 0x0A] @ repeat INDENT k @ [c]) (ts @ [] @ [] @ [c_tok])"
    using J 2 by (rule lexes_closed) (simp_all add: is_delim_def)
  from closed_append [OF 1 3] show ?thesis by simp
qed

lemma closed_inline:
  assumes J: "lexes J ts" and op: "closed op [o_tok]" and cl: "closed cl [c_tok]"
    and c: "cl \<noteq> []" "is_delim (hd cl)"
  shows "closed (op @ J @ cl) (o_tok # ts @ [c_tok])"
  using closed_append [OF op lexes_closed [OF J cl c]] by simp

lemma closed_formatArray:
  assumes IH: "\<And>v l. v \<in> set vs \<Longrightarrow> lexes (formatValue ns v l) (tokens_of ns v)"
  shows "closed (formatArray ns vs lvl) (LBrack # commas (map (tokens_of ns) vs) @ [RBrack])"
proof (cases "vs = []")
  case True
  then show ?thesis
    using closed_append [OF closed_delims(5) closed_delims(6)] by (simp add: formatArray.simps)
next
  case False
  let ?inline = "''['' @ join '', '' (map (\<lambda>v. formatValue ns v lvl) vs) @ '']''"
  have sep1: "closed '', '' [Comma]"
    using closed_append [OF closed_delims(3) closed_delims(1)] by simp
  have sep2: "closed ('','' @ [CHR 0x0A]) [Comma]"
    using closed_append [OF closed_delims(3) closed_delims(2)] by simp
  have J1: "lexes (join '', '' (map (\<lambda>v. formatValue ns v lvl) vs)) (commas (map (tokens_of ns) vs))"
    by (rule lexes_join [OF sep1]) (simp_all add: IH is_delim_def)
  have rows: "\<And>v. v \<in> set vs \<Longrightarrow>
      lexes (repeat INDENT (lvl + 1) @ formatValue ns v (lvl + 1)) ([] @ tokens_of ns v)"
    by (intro closed_lexes closed_repeat_INDENT IH)
  have J2: "lexes (join ('','' @ [CHR 0x0A])
        (map (\<lambda>v. repeat INDENT (lvl + 1) @ formatValue ns v (lvl + 1)) vs))
      (commas (map (tokens_of ns) vs))"
    using lexes_join [OF sep2, of vs "\<lambda>v. repeat INDENT (lvl + 1) @ formatValue ns v (lvl + 1)"
        "tokens_of ns"] rows
    by (simp add: is_delim_def)
  have A: "closed ?inline (LBrack # commas (map (tokens_of ns) vs) @ [RBrack])"
    by (rule closed_inline [OF J1 closed_delims(5) closed_delims(6)]) (simp_all add: is_delim_def)
  have B: "closed (CHR ''['' # CHR 0x0A # join ('','' @ [CHR 0x0A])
        (map (\<lambda>v. repeat INDENT (lvl + 1) @ formatValue ns v (lvl + 1)) vs) @
        CHR 0x0A # repeat INDENT lvl @ '']'')
      (LBrack # commas (map (tokens_of ns) vs) @ [RBrack])"
    by (rule closed_block [OF J2 closed_delims(5) closed_delims(6)]) (simp add: is_delim_def)
  show ?thesis
    using A B False by (simp add: formatArray.simps Let_def)
qed

lemma closed_formatObject:
  assumes IH: "\<And>k v l. (k, v) \<in> set es \<Longrightarrow> lexes (formatValue ns v l) (tokens_of ns v)"
  shows "closed (formatObject ns es lvl)
     (LBrace # commas (map (\<lambda>(k, v). word_token k # Colon # tokens_of ns v) es) @ [RBrace])"
proof (cases "es = []")
  case True
  then show ?thesis
    using closed_append [OF closed_delims(7) closed_delims(8)] by (simp add: formatObject.simps)
next
  case False
  let ?g = "\<lambda>(k, v). word_token k # Colon # tokens_of ns v"
  let ?f1 = "\<lambda>(k, v). formatKey k @ '': '' @ formatValue ns v lvl"
  let ?f2 = "\<lambda>(k, v). repeat INDENT (lvl + 1) @ formatKey k @ '': '' @
                formatValue ns v (lvl + 1)"
  have sep1: "closed '', '' [Comma]"
    using closed_append [OF closed_delims(3) closed_delims(1)] by simp
  have sep2: "closed ('','' @ [CHR 0x0A]) [Comma]"
    using closed_append [OF closed_delims(3) closed_delims(2)] by simp
  have colon: "closed '': '' [Colon]"
    using closed_append [OF closed_delims(4) closed_delims(1)] by simp
  have key: "closed (formatKey k @ '': '') ([word_token k] @ [Colon])" for k
    by (rule lexes_closed [OF lexes_formatKey colon]) (simp_all add: is_delim_def)
  have part: "lexes (formatKey k @ '': '' @ formatValue ns v l) (word_token k # Colon # tokens_of ns v)"
    if "(k, v) \<in> set es" for k v l
    using closed_lexes [OF key IH [OF that]] by simp
  have e1: "\<And>x. x \<in> set es \<Longrightarrow> lexes (?f1 x) (?g x)"
    using part by auto
  have e2: "\<And>x. x \<in> set es \<Longrightarrow> lexes (?f2 x) (?g x)"
  proof -
    fix x assume "x \<in> set es"
    moreover obtain k v where "x = (k, v)" by (cases x)
    ultimately have x: "x = (k, v)" "(k, v) \<in> set es" by simp_all
    from closed_lexes [OF closed_repeat_INDENT part [OF x(2)]]
    show "lexes (?f2 x) (?g x)" unfolding x(1) by simp
  qed
  have J1: "lexes (join '', '' (map ?f1 es)) (commas (map ?g es))"
    by (rule lexes_join [OF sep1 _ _ e1]) (simp_all add: is_delim_def)
  have J2: "lexes (join ('','' @ [CHR 0x0A]) (map ?f2 es)) (commas (map ?g es))"
    by (rule lexes_join [OF sep2 _ _ e2]) (simp_all add: is_delim_def)
  have brace: "closed ''{ '' [LBrace]" "closed '' }'' [RBrace]"
    using closed_append [OF closed_delims(7) closed_delims(1)]
      closed_append [OF closed_delims(1) closed_delims(8)] by simp_all
  have A: "closed (''{ '' @ join '', '' (map ?f1 es) @ '' }'') (LBrace # commas (map ?g es) @ [RBrace])"
    by (rule closed_inline [OF J1 brace]) (simp_all add: is_delim_def)
  have B: "closed (CHR ''{'' # CHR 0x0A # join ('','' @ [CHR 0x0A]) (map ?f2 es) @
        CHR 0x0A # repeat INDENT lvl @ ''}'')
      (LBrace # commas (map ?g es) @ [RBrace])"
    by (rule closed_block [OF J2 closed_delims(7) closed_delims(8)]) (simp add: is_delim_def)
  show ?thesis
    using A B False by (simp add: formatObject.simps Let_def)
qed

lemma number_text_lexes: "number_text s \<Longrightarrow> lexes s [Word s]"
  by (simp add: number_text_def lexes_word)

lemma lexes_formatValue:
  assumes ns: "\<And>n. number_text (ns n)"
  shows "lexes (formatValue ns v lvl) (tokens_of ns v)"
proof (induction v arbitrary: lvl)
  case JNull
  show ?case by (simp add: lexes_word is_delim_def)
next
  case (JBool b)
  show ?case by (simp add: lexes_word is_delim_def)
next
  case (JNum n)
  show ?case by (simp add: number_text_lexes ns)
next
  case (JStr s)
  show ?case using lexes_word_token [of s] by simp
next
  case (JArr vs)
  then show ?case
    using closed_formatArray [where ns = ns and vs = vs and lvl = lvl]
    by (simp add: closed_imp_lexes)
next
  case (JObj es)
  have "\<And>k v l. (k, v) \<in> set es \<Longrightarrow> lexes (formatValue ns v l) (tokens_of ns v)"
    using JObj.IH [of "(k, v)" v for k v] by (simp add: snds.simps)
  then show ?case
    using closed_formatObject [where ns = ns and es = es and lvl = lvl]
    by (simp add: closed_imp_lexes)
qed

subsection \<open>The reader on a printed document\<close>

lemma lines_lex_Nil: "lines_lex [] []"
  by (simp add: lines_lex_def closed_Nil)

lemma lines_lex_snoc:
  "lines_lex ls ts \<Longrightarrow> closed (l @ [CHR 0x0A]) t \<Longrightarrow> lines_lex (ls @ [l]) (ts @ t)"
  by (simp add: lines_lex_def closed_append)

lemma join_lines: "ls \<noteq> [] \<Longrightarrow> join [CHR 0x0A] ls @ [CHR 0x0A] = concat (map (\<lambda>l. l @ [CHR 0x0A]) ls)"
  by (induction ls rule: induct_list012) simp_all

text \<open>Rewriting the lexer through one printed line.\<close>

lemma lex_values:
  assumes ns: "\<And>n. number_text (ns n)"
  shows "bdry r \<Longrightarrow> lex (In_word []) (formatValue ns v lvl @ r) =
           push (tokens_of ns v) (lex (In_word []) r)"
    and "bdry r \<Longrightarrow> lex (In_word []) (formatIdentifier k @ r) =
           push [word_token k] (lex (In_word []) r)"
    and "bdry r \<Longrightarrow> lex (In_word []) (ns n @ r) = push [Word (ns n)] (lex (In_word []) r)"
    and "lex (In_word []) (formatObject ns es lvl @ r) =
           push (tokens_of ns (JObj es)) (lex (In_word []) r)"
    and "lex (In_word []) (formatArray ns vs lvl @ r) =
           push (tokens_of ns (JArr vs)) (lex (In_word []) r)"
proof -
  show "bdry r \<Longrightarrow> lex (In_word []) (formatValue ns v lvl @ r) =
           push (tokens_of ns v) (lex (In_word []) r)"
    using lexes_formatValue [where ns = ns and lvl = lvl and v = v] ns by (simp add: lexes_def)
  show "bdry r \<Longrightarrow> lex (In_word []) (formatIdentifier k @ r) =
           push [word_token k] (lex (In_word []) r)"
    using lexes_formatIdentifier [of k] by (simp add: lexes_def)
  show "bdry r \<Longrightarrow> lex (In_word []) (ns n @ r) = push [Word (ns n)] (lex (In_word []) r)"
    using number_text_lexes [of "ns n"] ns by (simp add: lexes_def)
  have IH: "\<And>v l. lexes (formatValue ns v l) (tokens_of ns v)"
    using lexes_formatValue [where ns = ns] ns by blast
  show "lex (In_word []) (formatObject ns es lvl @ r) =
           push (tokens_of ns (JObj es)) (lex (In_word []) r)"
    using closed_formatObject [where ns = ns and es = es and lvl = lvl] IH
    by (simp add: closed_def)
  show "lex (In_word []) (formatArray ns vs lvl @ r) =
           push (tokens_of ns (JArr vs)) (lex (In_word []) r)"
    using closed_formatArray [where ns = ns and vs = vs and lvl = lvl] IH
    by (simp add: closed_def)
qed

lemmas lex_line = closed_def INDENT_def lex_nondelim is_delim_def flush_def

lemma closed_action_lines:
  assumes ns: "\<And>n. number_text (ns n)"
  shows "closed ((INDENT @ ''action '' @ formatIdentifier (action_id a) @ '' {'') @ [CHR 0x0A])
           [Word ''action'', word_token (action_id a), LBrace]"
    and "closed ((INDENT @ INDENT @ ''type: '' @ formatValue ns (JStr (action_type a)) 2) @ [CHR 0x0A])
           [Word ''type'', Colon, word_token (action_type a)]"
    and "closed ((INDENT @ ''}'') @ [CHR 0x0A]) [RBrace]"
    and "closed ('''' @ [CHR 0x0A]) []"
  by (simp_all add: lex_line lex_values [OF ns] del: lex.simps formatValue.simps)

lemma lex_keyword:
  "keyword w \<Longrightarrow> lex (In_word []) (w @ CHR '' '' # r) = push [Word w] (lex (In_word []) r)"
  using lex_word_chars [of w "[]" "CHR '' '' # r"]
  by (simp add: keyword_def flush_def del: lex.simps)

lemma keyword_labels [simp]:
  "keyword ''params''" "keyword ''props''" "keyword ''style''" "keyword ''layout''"
  "keyword ''a11y''" "keyword ''visible_when''" "keyword ''enabled_when''" "keyword ''slots''"
  "keyword ''on''" "keyword ''args''" "keyword ''cache''" "keyword ''layout_constraints''"
  "keyword ''state''" "keyword ''tokens''"
  by (simp_all add: keyword_def is_delim_def)

lemma lines_lex_optional:
  assumes ns: "\<And>n. number_text (ns n)" and w: "keyword w" and ls: "lines_lex ls ts"
  shows "lines_lex (pushOptionalObjectBlock ns ls w v lvl) (ts @ opt_block ns w v)"
proof (cases "v = []")
  case True
  with ls show ?thesis by (simp add: pushOptionalObjectBlock_def opt_block_def)
next
  case False
  have "closed ((repeat INDENT lvl @ w @ '' '' @ formatObject ns v lvl) @ [CHR 0x0A])
          (Word w # tokens_of ns (JObj v))"
    using closed_repeat_INDENT [of lvl]
    by (simp add: closed_def lex_keyword [OF w] lex_values(4) [OF ns]
          del: lex.simps tokens_of.simps)
  from lines_lex_snoc [OF ls this] False show ?thesis
    by (simp add: pushOptionalObjectBlock_def opt_block_def Let_def)
qed

lemma lines_lex_if:
  "lines_lex ls ts \<Longrightarrow> (c \<Longrightarrow> closed (l @ [CHR 0x0A]) t) \<Longrightarrow>
   lines_lex (if c then ls @ [l] else ls) (ts @ (if c then t else []))"
  by (simp add: lines_lex_snoc)

lemma lines_lex_cond:
  assumes ns: "\<And>n. number_text (ns n)" and w: "keyword w" and ls: "lines_lex ls ts"
  shows "lines_lex (case c of None \<Rightarrow> ls | Some v \<Rightarrow> pushOptionalObjectBlock ns ls w v lvl)
           (ts @ opt_block ns w (cond_object c))"
proof (cases c)
  case None
  with ls show ?thesis by (simp add: cond_object_def opt_block_def)
next
  case (Some v)
  then show ?thesis
    using lines_lex_optional [where ns = ns and w = w and ls = ls and ts = ts and v = v and lvl = lvl] ns w ls
    by (simp add: cond_object_def)
qed

lemma lines_lex_emit_action:
  assumes ns: "\<And>n. number_text (ns n)" and ls: "lines_lex ls ts"
  shows "lines_lex (emit_action ns ls a) (ts @ action_tokens ns a)"
proof -
  note step = lines_lex_snoc lines_lex_optional [OF ns]
  have "lines_lex (emit_action ns ls a)
     (((((ts @ []) @ [Word ''action'', word_token (action_id a), LBrace]) @
        [Word ''type'', Colon, word_token (action_type a)]) @
        opt_block ns ''params'' (params a)) @ [RBrace])"
    unfolding emit_action_def Let_def
    by (intro step ls closed_action_lines [OF ns]) simp
  then show ?thesis by (simp add: action_tokens_def)
qed

lemma closed_binding_lines:
  assumes ns: "\<And>n. number_text (ns n)"
  shows "closed ((INDENT @ ''binding '' @ formatIdentifier (binding_id b) @ '' {'') @ [CHR 0x0A])
           [Word ''binding'', word_token (binding_id b), LBrace]"
    and "closed ((INDENT @ INDENT @ ''source: '' @ formatValue ns (JStr (source b)) 2) @ [CHR 0x0A])
           [Word ''source'', Colon, word_token (source b)]"
    and "closed ((INDENT @ INDENT @ ''select: '' @ formatValue ns (JStr (select b)) 2) @ [CHR 0x0A])
           [Word ''select'', Colon, word_token (select b)]"
  by (simp_all add: lex_line lex_values [OF ns] del: lex.simps formatValue.simps)

lemma lines_lex_emit_binding:
  assumes ns: "\<And>n. number_text (ns n)" and ls: "lines_lex ls ts"
  shows "lines_lex (emit_binding ns ls b) (ts @ binding_tokens ns b)"
proof -
  note step = lines_lex_snoc lines_lex_optional [OF ns]
  have "lines_lex (emit_binding ns ls b)
     (((((((ts @ []) @ [Word ''binding'', word_token (binding_id b), LBrace]) @
        [Word ''source'', Colon, word_token (source b)]) @
        [Word ''select'', Colon, word_token (select b)]) @
        opt_block ns ''args'' (args b)) @ opt_block ns ''cache'' (cache b)) @ [RBrace])"
    unfolding emit_binding_def Let_def
    by (intro step ls closed_binding_lines [OF ns] closed_action_lines(3,4) [OF ns]) simp_all
  then show ?thesis by (simp add: binding_tokens_def)
qed

lemma closed_node_lines:
  assumes ns: "\<And>n. number_text (ns n)"
  shows "closed ((INDENT @ ''node '' @ formatIdentifier (node_id n) @ '': '' @
             formatIdentifier (node_type n) @ '' {'') @ [CHR 0x0A])
           [Word ''node'', word_token (node_id n), Colon, word_token (node_type n), LBrace]"
    and "closed ((INDENT @ INDENT @ ''children: '' @ formatArray ns vs 2) @ [CHR 0x0A])
           (Word ''children'' # Colon # tokens_of ns (JArr vs))"
    and "closed ((INDENT @ INDENT @ ''slots '' @ formatObject ns es 2) @ [CHR 0x0A])
           (Word ''slots'' # tokens_of ns (JObj es))"
    and "closed ((INDENT @ INDENT @ ''on '' @ formatObject ns es 2) @ [CHR 0x0A])
           (Word ''on'' # tokens_of ns (JObj es))"
  by (simp_all add: lex_line lex_values [OF ns] del: lex.simps formatValue.simps tokens_of.simps)

lemma lines_lex_emit_node:
  assumes ns: "\<And>n. number_text (ns n)" and ls: "lines_lex ls ts"
  shows "lines_lex (emit_node ns ls n) (ts @ node_tokens ns n)"
proof -
  note step = lines_lex_snoc lines_lex_optional [OF ns] lines_lex_cond [OF ns] lines_lex_if
  have "lines_lex (emit_node ns ls n)
     ((((((((((((ts @ []) @
        [Word ''node'', word_token (node_id n), Colon, word_token (node_type n), LBrace]) @
        opt_block ns ''props'' (props n)) @
        opt_block ns ''style'' (style n)) @
        opt_block ns ''layout'' (layout n)) @
        opt_block ns ''a11y'' (a11y n)) @
        opt_block ns ''visible_when'' (cond_object (visible_when n))) @
        opt_block ns ''enabled_when'' (cond_object (enabled_when n))) @
        (if length (children n) > 0
         then Word ''children'' # Colon # tokens_of ns (JArr (map JStr (children n))) else [])) @
        (if length (slots n) > 0
         then Word ''slots'' # tokens_of ns (JObj (strings_record (slots n))) else [])) @
        (if length (node_on n) > 0
         then Word ''on'' # tokens_of ns (JObj (string_record (node_on n))) else [])) @
        [RBrace])"
    unfolding emit_node_def Let_def
    by (intro step ls closed_node_lines [OF ns] closed_action_lines(3,4) [OF ns]) simp_all
  moreover have "(if length (slots n) > 0
         then Word ''slots'' # tokens_of ns (JObj (strings_record (slots n))) else []) =
        opt_block ns ''slots'' (strings_record (slots n))"
    by (simp add: opt_block_def strings_record_def del: tokens_of.simps)
  moreover have "(if length (node_on n) > 0
         then Word ''on'' # tokens_of ns (JObj (string_record (node_on n))) else []) =
        opt_block ns ''on'' (string_record (node_on n))"
    by (simp add: opt_block_def string_record_def del: tokens_of.simps)
  moreover have "(if length (children n) > 0
         then Word ''children'' # Colon # tokens_of ns (JArr (map JStr (children n))) else []) =
        children_block ns (children n)"
    by (simp add: children_block_def del: tokens_of.simps)
  ultimately show ?thesis
    by (simp only: node_tokens_def append_assoc append_Nil2 append_Nil)
qed

lemma lines_lex_foldl:
  assumes step: "\<And>ls ts x. lines_lex ls ts \<Longrightarrow> lines_lex (f ls x) (ts @ g x)"
    and ls: "lines_lex ls ts"
  shows "lines_lex (foldl f ls xs) (ts @ concat (map g xs))"
  using ls
proof (induction xs arbitrary: ls ts)
  case Nil
  then show ?case by simp
next
  case (Cons x xs)
  from Cons.IH [OF step [OF Cons.prems]] show ?case by simp
qed

lemma tokens_of_JStr: "tokens_of ns (JStr s) = [word_token s]"
  by simp

lemma closed_header_lines:
  assumes ns: "\<And>n. number_text (ns n)"
  shows "closed ((''surface '' @ formatIdentifier (surface_id (surface d)) @ '' {'') @ [CHR 0x0A])
      [Word ''surface'', word_token (surface_id (surface d)), LBrace]"
    and "closed ((INDENT @ ''surface_meta { title: '' @
         formatValue ns (JStr (surface_title (surface d))) 1 @ '', route: '' @
         formatValue ns (JStr (surface_route (surface d))) 1 @ '' }'') @ [CHR 0x0A])
      [Word ''surface_meta'', LBrace,
         Word ''title'', Colon, word_token (surface_title (surface d)), Comma,
         Word ''route'', Colon, word_token (surface_route (surface d)), RBrace]"
    and "closed ((INDENT @ ''meta { document_id: '' @
         formatValue ns (JStr (document_id (meta d))) 1 @ '', revision: '' @
         ns (revision (meta d)) @ '', created_by: '' @
         formatValue ns (JStr (created_by (meta d))) 1 @ '' }'') @ [CHR 0x0A])
      [Word ''meta'', LBrace,
         Word ''document_id'', Colon, word_token (document_id (meta d)), Comma,
         Word ''revision'', Colon, Word (ns (revision (meta d))), Comma,
         Word ''created_by'', Colon, word_token (created_by (meta d)), RBrace]"
    and "closed ((INDENT @ ''theme { profile: '' @
         formatValue ns (JStr (ThemeProfile_str (profile (theme d)))) 1 @ '' density: '' @
         formatValue ns (JStr (Density_str (density (theme d)))) 1 @ '' }'') @ [CHR 0x0A])
      [Word ''theme'', LBrace,
         Word ''profile'', Colon, word_token (ThemeProfile_str (profile (theme d))),
         Word ''density'', Colon, word_token (Density_str (density (theme d))), RBrace]"
    and "closed ((INDENT @ ''theme { profile: '' @
         formatValue ns (JStr (ThemeProfile_str (profile (theme d)))) 1 @ '' density: '' @
         formatValue ns (JStr (Density_str (density (theme d)))) 1 @ '' tokens '' @
         formatObject ns (string_record (tokens (theme d))) 1 @ '' }'') @ [CHR 0x0A])
      ([Word ''theme'', LBrace,
         Word ''profile'', Colon, word_token (ThemeProfile_str (profile (theme d))),
         Word ''density'', Colon, word_token (Density_str (density (theme d))),
         Word ''tokens''] @ tokens_of ns (JObj (string_record (tokens (theme d)))) @ [RBrace])"
    and "closed (''}'' @ [CHR 0x0A]) [RBrace]"
  by (simp_all add: lex_line lex_values [OF ns] tokens_of_JStr
        del: lex.simps formatValue.simps tokens_of.simps)

lemma lines_lex_header:
  assumes ns: "\<And>n. number_text (ns n)"
  shows "lines_lex
     (if length (tokens (theme d)) = 0
      then ((([] @ [''surface '' @ formatIdentifier (surface_id (surface d)) @ '' {'']) @
             [INDENT @ ''surface_meta { title: '' @
         formatValue ns (JStr (surface_title (surface d))) 1 @ '', route: '' @
         formatValue ns (JStr (surface_route (surface d))) 1 @ '' }'']) @
             [INDENT @ ''meta { document_id: '' @
         formatValue ns (JStr (document_id (meta d))) 1 @ '', revision: '' @
         ns (revision (meta d)) @ '', created_by: '' @
         formatValue ns (JStr (created_by (meta d))) 1 @ '' }'']) @
           [INDENT @ ''theme { profile: '' @
         formatValue ns (JStr (ThemeProfile_str (profile (theme d)))) 1 @ '' density: '' @
         formatValue ns (JStr (Density_str (density (theme d)))) 1 @ '' }'']
      else ((([] @ [''surface '' @ formatIdentifier (surface_id (surface d)) @ '' {'']) @
             [INDENT @ ''surface_meta { title: '' @
         formatValue ns (JStr (surface_title (surface d))) 1 @ '', route: '' @
         formatValue ns (JStr (surface_route (surface d))) 1 @ '' }'']) @
             [INDENT @ ''meta { document_id: '' @
         formatValue ns (JStr (document_id (meta d))) 1 @ '', revision: '' @
         ns (revision (meta d)) @ '', created_by: '' @
         formatValue ns (JStr (created_by (meta d))) 1 @ '' }'']) @
           [INDENT @ ''theme { profile: '' @
         formatValue ns (JStr (ThemeProfile_str (profile (theme d)))) 1 @ '' density: '' @
         formatValue ns (JStr (Density_str (density (theme d)))) 1 @ '' tokens '' @
         formatObject ns (string_record (tokens (theme d))) 1 @ '' }''])
     (header_tokens ns d)"
proof (cases "tokens (theme d) = []")
  case True
  have "lines_lex
       (((([] @ [''surface '' @ formatIdentifier (surface_id (surface d)) @ '' {'']) @
             [INDENT @ ''surface_meta { title: '' @
         formatValue ns (JStr (surface_title (surface d))) 1 @ '', route: '' @
         formatValue ns (JStr (surface_route (surface d))) 1 @ '' }'']) @
             [INDENT @ ''meta { document_id: '' @
         formatValue ns (JStr (document_id (meta d))) 1 @ '', revision: '' @
         ns (revision (meta d)) @ '', created_by: '' @
         formatValue ns (JStr (created_by (meta d))) 1 @ '' }'']) @
           [INDENT @ ''theme { profile: '' @
         formatValue ns (JStr (ThemeProfile_str (profile (theme d)))) 1 @ '' density: '' @
         formatValue ns (JStr (Density_str (density (theme d)))) 1 @ '' }''])
       (((([] @ [Word ''surface'', word_token (surface_id (surface d)), LBrace]) @
           [Word ''surface_meta'', LBrace,
         Word ''title'', Colon, word_token (surface_title (surface d)), Comma,
         Word ''route'', Colon, word_token (surface_route (surface d)), RBrace]) @
           [Word ''meta'', LBrace,
         Word ''document_id'', Colon, word_token (document_id (meta d)), Comma,
         Word ''revision'', Colon, Word (ns (revision (meta d))), Comma,
         Word ''created_by'', Colon, word_token (created_by (meta d)), RBrace]) @
          [Word ''theme'', LBrace,
         Word ''profile'', Colon, word_token (ThemeProfile_str (profile (theme d))),
         Word ''density'', Colon, word_token (Density_str (density (theme d))), RBrace])"
      by (intro lines_lex_snoc lines_lex_Nil closed_header_lines [OF ns])
  with True show ?thesis
    by (simp add: header_tokens_def opt_block_def string_record_def)
next
  case False
  have "lines_lex
       (((([] @ [''surface '' @ formatIdentifier (surface_id (surface d)) @ '' {'']) @
             [INDENT @ ''surface_meta { title: '' @
         formatValue ns (JStr (surface_title (surface d))) 1 @ '', route: '' @
         formatValue ns (JStr (surface_route (surface d))) 1 @ '' }'']) @
             [INDENT @ ''meta { document_id: '' @
         formatValue ns (JStr (document_id (meta d))) 1 @ '', revision: '' @
         ns (revision (meta d)) @ '', created_by: '' @
         formatValue ns (JStr (created_by (meta d))) 1 @ '' }'']) @
           [INDENT @ ''theme { profile: '' @
         formatValue ns (JStr (ThemeProfile_str (profile (theme d)))) 1 @ '' density: '' @
         formatValue ns (JStr (Density_str (density (theme d)))) 1 @ '' tokens '' @
         formatObject ns (string_record (tokens (theme d))) 1 @ '' }''])
       (((([] @ [Word ''surface'', word_token (surface_id (surface d)), LBrace]) @
           [Word ''surface_meta'', LBrace,
         Word ''title'', Colon, word_token (surface_title (surface d)), Comma,
         Word ''route'', Colon, word_token (surface_route (surface d)), RBrace]) @
           [Word ''meta'', LBrace,
         Word ''document_id'', Colon, word_token (document_id (meta d)), Comma,
         Word ''revision'', Colon, Word (ns (revision (meta d))), Comma,
         Word ''created_by'', Colon, word_token (created_by (meta d)), RBrace]) @
          ([Word ''theme'', LBrace,
         Word ''profile'', Colon, word_token (ThemeProfile_str (profile (theme d))),
         Word ''density'', Colon, word_token (Density_str (density (theme d))),
         Word ''tokens''] @ tokens_of ns (JObj (string_record (tokens (theme d)))) @ [RBrace]))"
      by (intro lines_lex_snoc lines_lex_Nil closed_header_lines [OF ns])
  with False show ?thesis
    by (simp add: header_tokens_def opt_block_def string_record_def del: tokens_of.simps)
qed

lemma lines_lex_document:
  assumes ns: "\<And>n. number_text (ns n)"
  shows "lines_lex (document_lines ns d) (document_tokens ns d)"
proof -
  note step = lines_lex_snoc lines_lex_optional [OF ns]
    lines_lex_foldl [where f = "emit_action ns" and g = "action_tokens ns"]
    lines_lex_foldl [where f = "emit_node ns" and g = "node_tokens ns"]
    lines_lex_foldl [where f = "emit_binding ns" and g = "binding_tokens ns"]
    lines_lex_emit_action [OF ns] lines_lex_emit_node [OF ns] lines_lex_emit_binding [OF ns]
  have "lines_lex (document_lines ns d)
     ((((((header_tokens ns d @
        opt_block ns ''layout_constraints'' (layout_constraints d)) @
        opt_block ns ''state'' (locals (state d))) @
        concat (map (action_tokens ns) (actions d))) @
        concat (map (node_tokens ns) (nodes d))) @
        concat (map (binding_tokens ns) (bindings d))) @ [RBrace])"
    unfolding document_lines_def Let_def
    by (intro step lines_lex_header [OF ns] closed_header_lines(6) [OF ns]) simp_all
  then show ?thesis by (simp add: document_tokens_def)
qed

theorem lex_serialize:
  assumes ns: "\<And>n. number_text (ns n)"
  shows "lex (In_word []) (serializeDuiDslDocument ns d) = Some (document_tokens ns d)"
proof -
  have ne: "document_lines ns d \<noteq> []"
    by (simp add: document_lines_def Let_def)
  have "closed (join [CHR 0x0A] (document_lines ns d) @ [CHR 0x0A]) (document_tokens ns d)"
    using lines_lex_document [OF ns, where d = d] by (simp add: lines_lex_def join_lines [OF ne])
  then have "lex (In_word []) (serializeDuiDslDocument ns d @ []) =
      push (document_tokens ns d) (lex (In_word []) [])"
    unfolding serializeDuiDslDocument_def closed_def by blast
  then show ?thesis by simp
qed

subsection \<open>Token lists are read in one way only\<close>

lemma commas_Cons: "commas (a # as) = a @ (if as = [] then [] else Comma # commas as)"
  by (cases as) simp_all

lemma commas_unique:
  assumes elem: "\<And>x y r r'. x \<in> set xs \<Longrightarrow> f x @ r = f y @ r' \<Longrightarrow> x = y \<and> r = r'"
    and first: "\<And>y. \<exists>t ts. f y = t # ts \<and> t \<noteq> c"
    and c: "c \<noteq> Comma"
    and eq: "commas (map f xs) @ c # r = commas (map f ys) @ c # r'"
  shows "xs = ys \<and> r = r'"
  using elem eq
proof (induction xs arbitrary: ys)
  case Nil
  show ?case
  proof (cases ys)
    case Nil
    with Nil.prems(2) show ?thesis by simp
  next
    case (Cons y ys')
    obtain t ts where "f y = t # ts" "t \<noteq> c" using first [of y] by blast
    with Nil.prems(2) Cons show ?thesis by (simp add: commas_Cons)
  qed
next
  case (Cons x xs')
  show ?case
  proof (cases ys)
    case Nil
    obtain t ts where "f x = t # ts" "t \<noteq> c" using first [of x] by blast
    with Cons.prems(2) Nil show ?thesis by (simp add: commas_Cons)
  next
    case ys: (Cons y ys')
    let ?X = "(if xs' = [] then [] else Comma # commas (map f xs')) @ c # r"
    let ?Y = "(if ys' = [] then [] else Comma # commas (map f ys')) @ c # r'"
    from Cons.prems(2) ys have "f x @ ?X = f y @ ?Y"
      by (simp add: commas_Cons)
    from Cons.prems(1) [OF _ this] have xy: "x = y" and rest: "?X = ?Y" by simp_all
    have "xs' = ys' \<and> r = r'"
    proof (cases "xs' = []")
      case True
      with rest c show ?thesis by (cases "ys' = []") auto
    next
      case False
      with rest c have ne: "ys' \<noteq> []" by (cases "ys' = []") auto
      with rest False have "commas (map f xs') @ c # r = commas (map f ys') @ c # r'" by simp
      moreover have "\<And>x y r r'. x \<in> set xs' \<Longrightarrow> f x @ r = f y @ r' \<Longrightarrow> x = y \<and> r = r'"
        using Cons.prems(1) by (meson list.set_intros(2))
      ultimately show ?thesis using Cons.IH by blast
    qed
    with xy ys show ?thesis by simp
  qed
qed

lemma number_text_not_identifier: "number_text s \<Longrightarrow> \<not> isIdentifier s"
  by (cases s) (simp_all add: number_text_def isIdentifier_def IDENTIFIER_RE_def)

lemma number_text_not_reserved:
  assumes "number_text s"
  shows "s \<noteq> ''null''" "s \<noteq> ''true''" "s \<noteq> ''false''"
  using assms by (auto simp: number_text_def ident_head_def in_range_def)

lemma reserved_not_identifier:
  "\<not> isIdentifier ''null''" "\<not> isIdentifier ''true''" "\<not> isIdentifier ''false''"
  by (simp_all add: isIdentifier_def RESERVED_WORDS_def)

lemma word_token_eq [simp]: "word_token a = word_token b \<longleftrightarrow> a = b"
  by (auto simp: word_token_def)

lemma word_token_Word: "word_token s = Word w \<longleftrightarrow> s = w \<and> isIdentifier w"
  "Word w = word_token s \<longleftrightarrow> s = w \<and> isIdentifier w"
  by (auto simp: word_token_def)

lemma word_token_distinct [simp]:
  "word_token s \<noteq> LBrace" "word_token s \<noteq> RBrace" "word_token s \<noteq> LBrack"
  "word_token s \<noteq> RBrack" "word_token s \<noteq> Colon" "word_token s \<noteq> Comma"
  "LBrace \<noteq> word_token s" "RBrace \<noteq> word_token s" "LBrack \<noteq> word_token s"
  "RBrack \<noteq> word_token s" "Colon \<noteq> word_token s" "Comma \<noteq> word_token s"
  by (simp_all add: word_token_def)

lemma tokens_of_first:
  "\<exists>t ts. tokens_of ns v = t # ts \<and> t \<noteq> RBrack \<and> t \<noteq> RBrace \<and> t \<noteq> Comma \<and> t \<noteq> Colon"
  by (cases v) simp_all

lemma tokens_of_unique:
  assumes inj: "inj ns" and ns: "\<And>n. number_text (ns n)"
  shows "tokens_of ns v @ r = tokens_of ns v' @ r' \<Longrightarrow> v = v' \<and> r = r'"
proof (induction v arbitrary: v' r r')
  case JNull
  then show ?case
    using number_text_not_reserved [OF ns]
    by (cases v') (auto simp: word_token_Word reserved_not_identifier split: if_splits)
next
  case (JBool b)
  then show ?case
    using number_text_not_reserved [OF ns]
    by (cases v') (auto simp: word_token_Word reserved_not_identifier split: if_splits)
next
  case (JNum n)
  then show ?case
    using number_text_not_reserved [OF ns] number_text_not_identifier [OF ns] inj
    by (cases v') (auto simp: word_token_Word inj_def split: if_splits)
next
  case (JStr s)
  then show ?case
    using number_text_not_identifier [OF ns]
    by (cases v') (auto simp: word_token_Word reserved_not_identifier split: if_splits)
next
  case (JArr vs)
  show ?case
  proof (cases v')
    case (JArr vs')
    with JArr.prems
    have "commas (map (tokens_of ns) vs) @ RBrack # r =
          commas (map (tokens_of ns) vs') @ RBrack # r'" by simp
    then have "vs = vs' \<and> r = r'"
    proof (rule commas_unique [rotated 3])
      show "\<And>x y r r'. x \<in> set vs \<Longrightarrow> tokens_of ns x @ r = tokens_of ns y @ r' \<Longrightarrow>
              x = y \<and> r = r'"
        using JArr.IH by blast
      show "\<And>y. \<exists>t ts. tokens_of ns y = t # ts \<and> t \<noteq> RBrack"
        using tokens_of_first [of ns] by blast
    qed simp
    with JArr show ?thesis by simp
  qed (use JArr.prems in \<open>auto simp: word_token_Word\<close>)
next
  case (JObj es)
  show ?case
  proof (cases v')
    case (JObj es')
    let ?f = "\<lambda>(k, v). word_token k # Colon # tokens_of ns v"
    from JObj JObj.prems
    have "commas (map ?f es) @ RBrace # r = commas (map ?f es') @ RBrace # r'" by simp
    then have "es = es' \<and> r = r'"
    proof (rule commas_unique [rotated 3])
      fix x y :: "string \<times> 'a json" and r r'
      assume x: "x \<in> set es" and eq: "?f x @ r = ?f y @ r'"
      obtain k v where xk: "x = (k, v)" by (cases x)
      obtain k' w where yk: "y = (k', w)" by (cases y)
      from eq xk yk have k: "k = k'" and t: "tokens_of ns v @ r = tokens_of ns w @ r'"
        by simp_all
      from JObj.IH [of x v, OF x _ t] xk have "v = w \<and> r = r'" by (simp add: snds.simps)
      with k xk yk show "x = y \<and> r = r'" by simp
    next
      fix y :: "string \<times> 'a json"
      show "\<exists>t ts. ?f y = t # ts \<and> t \<noteq> RBrace"
        by (cases y) simp
    qed simp
    with JObj show ?thesis by simp
  qed (use JObj.prems in \<open>auto simp: word_token_Word\<close>)
qed

lemma next_is_simps [simp]:
  "next_is t [] = False" "next_is t (x # xs) = (x = t)"
  by (simp_all add: next_is_def)

lemma next_is_opt_block [simp]:
  "next_is t (opt_block ns l v @ r) = (if v = [] then next_is t r else Word l = t)"
  by (simp add: opt_block_def)

lemma next_is_blocks:
  assumes "\<And>y. \<exists>ts. f y = k # ts"
  shows "next_is t (concat (map f xs) @ r) = (if xs = [] then next_is t r else k = t)"
proof (cases xs)
  case (Cons x xs')
  obtain ts where "f x = k # ts" using assms by blast
  with Cons show ?thesis by simp
qed simp

lemma opt_block_unique:
  assumes inj: "inj ns" and ns: "\<And>n. number_text (ns n)"
    and eq: "opt_block ns l v @ r = opt_block ns l v' @ r'"
    and r: "\<not> next_is (Word l) r" "\<not> next_is (Word l) r'"
  shows "v = v' \<and> r = r'"
proof (cases "v = []"; cases "v' = []")
  assume "v \<noteq> []" "v' \<noteq> []"
  with eq have "tokens_of ns (JObj v) @ r = tokens_of ns (JObj v') @ r'"
    by (simp add: opt_block_def)
  from tokens_of_unique [OF inj ns this] show ?thesis by simp
qed (use eq r in \<open>auto simp: opt_block_def\<close>)

lemma blocks_unique:
  assumes elem: "\<And>x y r r'. f x @ r = f y @ r' \<Longrightarrow> g x = g y \<and> r = r'"
    and first: "\<And>y. \<exists>ts. f y = k # ts"
    and r: "\<not> next_is k r" "\<not> next_is k r'"
    and eq: "concat (map f xs) @ r = concat (map f ys) @ r'"
  shows "map g xs = map g ys \<and> r = r'"
  using eq
proof (induction xs arbitrary: ys)
  case Nil
  show ?case
  proof (cases ys)
    case (Cons y ys')
    obtain ts where "f y = k # ts" using first by blast
    with Nil Cons r show ?thesis by auto
  qed (use Nil in simp)
next
  case (Cons x xs')
  show ?case
  proof (cases ys)
    case Nil
    obtain ts where "f x = k # ts" using first by blast
    with Nil Cons.prems r show ?thesis by auto
  next
    case ys: (Cons y ys')
    with Cons.prems
    have "f x @ (concat (map f xs') @ r) = f y @ (concat (map f ys') @ r')" by simp
    from elem [OF this] have "g x = g y" "concat (map f xs') @ r = concat (map f ys') @ r'"
      by simp_all
    with Cons.IH [of ys'] ys show ?thesis by simp
  qed
qed

lemma inj_string_record: "string_record a = (string_record b :: 'n jsobject) \<longleftrightarrow> a = b"
proof -
  have "inj (\<lambda>(k :: string, v :: string). (k, JStr v :: 'n json))"
    by (auto simp: inj_def)
  then show ?thesis
    unfolding string_record_def by (auto dest: inj_mapD [OF iffD2 [OF inj_map]] simp: inj_map_eq_map)
qed

lemma inj_strings_record: "strings_record a = (strings_record b :: 'n jsobject) \<longleftrightarrow> a = b"
proof -
  have "inj (JStr :: string \<Rightarrow> 'n json)" by (simp add: inj_def)
  then have "inj (\<lambda>(k :: string, vs :: string list). (k, JArr (map JStr vs) :: 'n json))"
    by (auto simp: inj_def inj_map_eq_map)
  then show ?thesis
    unfolding strings_record_def by (simp add: inj_map_eq_map)
qed

lemma inj_map_JStr: "map JStr a = (map JStr b :: 'n json list) \<longleftrightarrow> a = b"
  by (simp add: inj_map_eq_map inj_def)

lemma action_tokens_unique:
  assumes inj: "inj ns" and ns: "\<And>n. number_text (ns n)"
    and eq: "action_tokens ns a @ r = action_tokens ns a' @ r'"
  shows "a = a' \<and> r = r'"
proof -
  from eq have 1: "action_id a = action_id a'" "action_type a = action_type a'"
    and 2: "opt_block ns ''params'' (params a) @ RBrace # r =
            opt_block ns ''params'' (params a') @ RBrace # r'"
    by (simp_all add: action_tokens_def)
  from opt_block_unique [OF inj ns 2] have "params a = params a'" "r = r'" by simp_all
  with 1 show ?thesis by (cases a; cases a') simp
qed

lemma binding_tokens_unique:
  assumes inj: "inj ns" and ns: "\<And>n. number_text (ns n)"
    and eq: "binding_tokens ns b @ r = binding_tokens ns b' @ r'"
  shows "b = b' \<and> r = r'"
proof -
  from eq have 1: "binding_id b = binding_id b'" "source b = source b'" "select b = select b'"
    and 2: "opt_block ns ''args'' (args b) @ opt_block ns ''cache'' (cache b) @ RBrace # r =
            opt_block ns ''args'' (args b') @ opt_block ns ''cache'' (cache b') @ RBrace # r'"
    by (simp_all add: binding_tokens_def)
  from opt_block_unique [OF inj ns 2] have 3: "args b = args b'"
    and 4: "opt_block ns ''cache'' (cache b) @ RBrace # r =
            opt_block ns ''cache'' (cache b') @ RBrace # r'" by simp_all
  from opt_block_unique [OF inj ns 4] have "cache b = cache b'" "r = r'" by simp_all
  with 1 3 show ?thesis by (cases b; cases b') simp
qed

lemma next_is_children_block [simp]:
  "next_is t (children_block ns c @ r) = (if c = [] then next_is t r else Word ''children'' = t)"
  by (simp add: children_block_def)

lemma children_block_unique:
  assumes inj: "inj ns" and ns: "\<And>n. number_text (ns n)"
    and eq: "children_block ns c @ r = children_block ns c' @ r'"
    and r: "\<not> next_is (Word ''children'') r" "\<not> next_is (Word ''children'') r'"
  shows "c = c' \<and> r = r'"
proof (cases "c = []"; cases "c' = []")
  assume "c \<noteq> []" "c' \<noteq> []"
  with eq have "tokens_of ns (JArr (map JStr c)) @ r = tokens_of ns (JArr (map JStr c')) @ r'"
    by (simp add: children_block_def)
  from tokens_of_unique [OF inj ns this] show ?thesis by (simp add: inj_map_JStr)
qed (use eq r in \<open>auto simp: children_block_def\<close>)

lemma node_tokens_unique:
  assumes inj: "inj ns" and ns: "\<And>n. number_text (ns n)"
    and eq: "node_tokens ns n @ r = node_tokens ns n' @ r'"
  shows "printed_node n = printed_node n' \<and> r = r'"
proof -
  note u = opt_block_unique [OF inj ns]
  note c = children_block_unique [OF inj ns]
  from eq have 0: "node_id n = node_id n'" "node_type n = node_type n'"
    and e0: "opt_block ns ''props'' (props n) @
      opt_block ns ''style'' (style n) @
      opt_block ns ''layout'' (layout n) @
      opt_block ns ''a11y'' (a11y n) @
      opt_block ns ''visible_when'' (cond_object (visible_when n)) @
      opt_block ns ''enabled_when'' (cond_object (enabled_when n)) @
      children_block ns (children n) @
      opt_block ns ''slots'' (strings_record (slots n)) @
      opt_block ns ''on'' (string_record (node_on n)) @
      RBrace # r =
      opt_block ns ''props'' (props n') @
      opt_block ns ''style'' (style n') @
      opt_block ns ''layout'' (layout n') @
      opt_block ns ''a11y'' (a11y n') @
      opt_block ns ''visible_when'' (cond_object (visible_when n')) @
      opt_block ns ''enabled_when'' (cond_object (enabled_when n')) @
      children_block ns (children n') @
      opt_block ns ''slots'' (strings_record (slots n')) @
      opt_block ns ''on'' (string_record (node_on n')) @
      RBrace # r'"
    by (simp_all add: node_tokens_def)
  from u [OF e0] have f0: "props n = props n'"
    and e1: "opt_block ns ''style'' (style n) @
      opt_block ns ''layout'' (layout n) @
      opt_block ns ''a11y'' (a11y n) @
      opt_block ns ''visible_when'' (cond_object (visible_when n)) @
      opt_block ns ''enabled_when'' (cond_object (enabled_when n)) @
      children_block ns (children n) @
      opt_block ns ''slots'' (strings_record (slots n)) @
      opt_block ns ''on'' (string_record (node_on n)) @
      RBrace # r =
      opt_block ns ''style'' (style n') @
      opt_block ns ''layout'' (layout n') @
      opt_block ns ''a11y'' (a11y n') @
      opt_block ns ''visible_when'' (cond_object (visible_when n')) @
      opt_block ns ''enabled_when'' (cond_object (enabled_when n')) @
      children_block ns (children n') @
      opt_block ns ''slots'' (strings_record (slots n')) @
      opt_block ns ''on'' (string_record (node_on n')) @
      RBrace # r'"
    by simp_all
  from u [OF e1] have f1: "style n = style n'"
    and e2: "opt_block ns ''layout'' (layout n) @
      opt_block ns ''a11y'' (a11y n) @
      opt_block ns ''visible_when'' (cond_object (visible_when n)) @
      opt_block ns ''enabled_when'' (cond_object (enabled_when n)) @
      children_block ns (children n) @
      opt_block ns ''slots'' (strings_record (slots n)) @
      opt_block ns ''on'' (string_record (node_on n)) @
      RBrace # r =
      opt_block ns ''layout'' (layout n') @
      opt_block ns ''a11y'' (a11y n') @
      opt_block ns ''visible_when'' (cond_object (visible_when n')) @
      opt_block ns ''enabled_when'' (cond_object (enabled_when n')) @
      children_block ns (children n') @
      opt_block ns ''slots'' (strings_record (slots n')) @
      opt_block ns ''on'' (string_record (node_on n')) @
      RBrace # r'"
    by simp_all
  from u [OF e2] have f2: "layout n = layout n'"
    and e3: "opt_block ns ''a11y'' (a11y n) @
      opt_block ns ''visible_when'' (cond_object (visible_when n)) @
      opt_block ns ''enabled_when'' (cond_object (enabled_when n)) @
      children_block ns (children n) @
      opt_block ns ''slots'' (strings_record (slots n)) @
      opt_block ns ''on'' (string_record (node_on n)) @
      RBrace # r =
      opt_block ns ''a11y'' (a11y n') @
      opt_block ns ''visible_when'' (cond_object (visible_when n')) @
      opt_block ns ''enabled_when'' (cond_object (enabled_when n')) @
      children_block ns (children n') @
      opt_block ns ''slots'' (strings_record (slots n')) @
      opt_block ns ''on'' (string_record (node_on n')) @
      RBrace # r'"
    by simp_all
  from u [OF e3] have f3: "a11y n = a11y n'"
    and e4: "opt_block ns ''visible_when'' (cond_object (visible_when n)) @
      opt_block ns ''enabled_when'' (cond_object (enabled_when n)) @
      children_block ns (children n) @
      opt_block ns ''slots'' (strings_record (slots n)) @
      opt_block ns ''on'' (string_record (node_on n)) @
      RBrace # r =
      opt_block ns ''visible_when'' (cond_object (visible_when n')) @
      opt_block ns ''enabled_when'' (cond_object (enabled_when n')) @
      children_block ns (children n') @
      opt_block ns ''slots'' (strings_record (slots n')) @
      opt_block ns ''on'' (string_record (node_on n')) @
      RBrace # r'"
    by simp_all
  from u [OF e4] have f4: "cond_object (visible_when n) = cond_object (visible_when n')"
    and e5: "opt_block ns ''enabled_when'' (cond_object (enabled_when n)) @
      children_block ns (children n) @
      opt_block ns ''slots'' (strings_record (slots n)) @
      opt_block ns ''on'' (string_record (node_on n)) @
      RBrace # r =
      opt_block ns ''enabled_when'' (cond_object (enabled_when n')) @
      children_block ns (children n') @
      opt_block ns ''slots'' (strings_record (slots n')) @
      opt_block ns ''on'' (string_record (node_on n')) @
      RBrace # r'"
    by simp_all
  from u [OF e5] have f5: "cond_object (enabled_when n) = cond_object (enabled_when n')"
    and e6: "children_block ns (children n) @
      opt_block ns ''slots'' (strings_record (slots n)) @
      opt_block ns ''on'' (string_record (node_on n)) @
      RBrace # r =
      children_block ns (children n') @
      opt_block ns ''slots'' (strings_record (slots n')) @
      opt_block ns ''on'' (string_record (node_on n')) @
      RBrace # r'"
    by simp_all
  from c [OF e6] have f6: "children n = children n'"
    and e7: "opt_block ns ''slots'' (strings_record (slots n)) @
      opt_block ns ''on'' (string_record (node_on n)) @
      RBrace # r =
      opt_block ns ''slots'' (strings_record (slots n')) @
      opt_block ns ''on'' (string_record (node_on n')) @
      RBrace # r'"
    by simp_all
  from u [OF e7] have f7: "slots n = slots n'"
    and e8: "opt_block ns ''on'' (string_record (node_on n)) @
      RBrace # r =
      opt_block ns ''on'' (string_record (node_on n')) @
      RBrace # r'"
    by (simp_all add: inj_string_record inj_strings_record)
  from u [OF e8] have f8: "node_on n = node_on n'" and rr: "r = r'"
    by (simp_all add: inj_string_record inj_strings_record)
  from 0 f0 f1 f2 f3 f4 f5 f6 f7 f8 have "printed_node n = printed_node n'"
    by (cases n; cases n') (simp add: printed_node_def)
  with rr show ?thesis by simp
qed

lemma next_is_block_lists [simp]:
  "next_is t (concat (map (action_tokens ns) as) @ r) =
     (if as = [] then next_is t r else Word ''action'' = t)"
  "next_is t (concat (map (node_tokens ns) ns') @ r) =
     (if ns' = [] then next_is t r else Word ''node'' = t)"
  "next_is t (concat (map (binding_tokens ns) bs) @ r) =
     (if bs = [] then next_is t r else Word ''binding'' = t)"
  by (rule next_is_blocks, simp add: action_tokens_def node_tokens_def binding_tokens_def)+

lemma ThemeProfile_str_eq [simp]: "ThemeProfile_str p = ThemeProfile_str q \<longleftrightarrow> p = q"
  by (cases p; cases q) simp_all

lemma Density_str_eq [simp]: "Density_str p = Density_str q \<longleftrightarrow> p = q"
  by (cases p; cases q) simp_all

lemma document_tokens_unique:
  assumes inj: "inj ns" and ns: "\<And>n. number_text (ns n)"
    and eq: "document_tokens ns d = document_tokens ns d'"
  shows "text_fields d = text_fields d'"
proof -
  note u = opt_block_unique [OF inj ns]
  from eq inj have s: "surface_id (surface d) = surface_id (surface d')"
      "surface_title (surface d) = surface_title (surface d')"
      "surface_route (surface d) = surface_route (surface d')"
    and m: "document_id (meta d) = document_id (meta d')"
      "revision (meta d) = revision (meta d')"
      "created_by (meta d) = created_by (meta d')"
    and t: "profile (theme d) = profile (theme d')" "density (theme d) = density (theme d')"
    and e0: "opt_block ns ''tokens'' (string_record (tokens (theme d))) @ RBrace #
        opt_block ns ''layout_constraints'' (layout_constraints d) @
        opt_block ns ''state'' (locals (state d)) @
        concat (map (action_tokens ns) (actions d)) @
        concat (map (node_tokens ns) (nodes d)) @
        concat (map (binding_tokens ns) (bindings d)) @ [RBrace] =
      opt_block ns ''tokens'' (string_record (tokens (theme d'))) @ RBrace #
        opt_block ns ''layout_constraints'' (layout_constraints d') @
        opt_block ns ''state'' (locals (state d')) @
        concat (map (action_tokens ns) (actions d')) @
        concat (map (node_tokens ns) (nodes d')) @
        concat (map (binding_tokens ns) (bindings d')) @ [RBrace]"
    by (simp_all add: document_tokens_def header_tokens_def inj_def)
  from u [OF e0] have t3: "tokens (theme d) = tokens (theme d')"
    and e1: "opt_block ns ''layout_constraints'' (layout_constraints d) @
        opt_block ns ''state'' (locals (state d)) @
        concat (map (action_tokens ns) (actions d)) @
        concat (map (node_tokens ns) (nodes d)) @
        concat (map (binding_tokens ns) (bindings d)) @ [RBrace] =
      opt_block ns ''layout_constraints'' (layout_constraints d') @
        opt_block ns ''state'' (locals (state d')) @
        concat (map (action_tokens ns) (actions d')) @
        concat (map (node_tokens ns) (nodes d')) @
        concat (map (binding_tokens ns) (bindings d')) @ [RBrace]"
    by (simp_all add: inj_string_record)
  from u [OF e1] have lc: "layout_constraints d = layout_constraints d'"
    and e2: "opt_block ns ''state'' (locals (state d)) @
        concat (map (action_tokens ns) (actions d)) @
        concat (map (node_tokens ns) (nodes d)) @
        concat (map (binding_tokens ns) (bindings d)) @ [RBrace] =
      opt_block ns ''state'' (locals (state d')) @
        concat (map (action_tokens ns) (actions d')) @
        concat (map (node_tokens ns) (nodes d')) @
        concat (map (binding_tokens ns) (bindings d')) @ [RBrace]"
    by simp_all
  from u [OF e2] have st: "locals (state d) = locals (state d')"
    and e3: "concat (map (action_tokens ns) (actions d)) @
        concat (map (node_tokens ns) (nodes d)) @
        concat (map (binding_tokens ns) (bindings d)) @ [RBrace] =
      concat (map (action_tokens ns) (actions d')) @
        concat (map (node_tokens ns) (nodes d')) @
        concat (map (binding_tokens ns) (bindings d')) @ [RBrace]"
    by simp_all
  have "map (\<lambda>a. a) (actions d) = map (\<lambda>a. a) (actions d') \<and>
        concat (map (node_tokens ns) (nodes d)) @
          concat (map (binding_tokens ns) (bindings d)) @ [RBrace] =
        concat (map (node_tokens ns) (nodes d')) @
          concat (map (binding_tokens ns) (bindings d')) @ [RBrace]"
  proof (rule blocks_unique [where k = "Word ''action''", OF _ _ _ _ e3])
    show "\<And>x y r r'. action_tokens ns x @ r = action_tokens ns y @ r' \<Longrightarrow> x = y \<and> r = r'"
      using action_tokens_unique [OF inj ns] by blast
  qed (simp_all add: action_tokens_def)
  then have ac: "actions d = actions d'"
    and e4: "concat (map (node_tokens ns) (nodes d)) @
          concat (map (binding_tokens ns) (bindings d)) @ [RBrace] =
        concat (map (node_tokens ns) (nodes d')) @
          concat (map (binding_tokens ns) (bindings d')) @ [RBrace]"
    by simp_all
  have "map printed_node (nodes d) = map printed_node (nodes d') \<and>
        concat (map (binding_tokens ns) (bindings d)) @ [RBrace] =
        concat (map (binding_tokens ns) (bindings d')) @ [RBrace]"
  proof (rule blocks_unique [where k = "Word ''node''", OF _ _ _ _ e4])
    show "\<And>x y r r'. node_tokens ns x @ r = node_tokens ns y @ r' \<Longrightarrow>
            printed_node x = printed_node y \<and> r = r'"
      using node_tokens_unique [OF inj ns] by blast
  qed (simp_all add: node_tokens_def)
  then have no: "map printed_node (nodes d) = map printed_node (nodes d')"
    and e5: "concat (map (binding_tokens ns) (bindings d)) @ [RBrace] =
        concat (map (binding_tokens ns) (bindings d')) @ [RBrace]"
    by simp_all
  have "map (\<lambda>b. b) (bindings d) = map (\<lambda>b. b) (bindings d') \<and> [RBrace] = [RBrace]"
  proof (rule blocks_unique [where k = "Word ''binding''", OF _ _ _ _ e5])
    show "\<And>x y r r'. binding_tokens ns x @ r = binding_tokens ns y @ r' \<Longrightarrow> x = y \<and> r = r'"
      using binding_tokens_unique [OF inj ns] by blast
  qed (simp_all add: binding_tokens_def)
  then have bi: "bindings d = bindings d'" by simp
  from s have "surface d = surface d'" by (cases "surface d"; cases "surface d'") simp
  moreover from t t3 have "theme d = theme d'" by (cases "theme d"; cases "theme d'") simp
  ultimately show ?thesis
    using m lc st ac no bi by (simp add: text_fields_def printed_fields_def)
qed

subsection \<open>Round trip\<close>

lemma push_cond_object:
  "(case c of None \<Rightarrow> ls | Some v \<Rightarrow> pushOptionalObjectBlock ns ls w v l) =
   pushOptionalObjectBlock ns ls w (cond_object c) l"
  by (cases c) (simp_all add: cond_object_def pushOptionalObjectBlock_def)

lemma cond_object_Some: "cond_object (Some v) = v"
  by (simp add: cond_object_def)

lemma emit_node_printed_node: "emit_node ns ls (printed_node n) = emit_node ns ls n"
proof -
  have "node_id (printed_node n) = node_id n" "node_type (printed_node n) = node_type n"
    "props (printed_node n) = props n" "style (printed_node n) = style n"
    "layout (printed_node n) = layout n" "a11y (printed_node n) = a11y n"
    "visible_when (printed_node n) = Some (cond_object (visible_when n))"
    "enabled_when (printed_node n) = Some (cond_object (enabled_when n))"
    "children (printed_node n) = children n" "slots (printed_node n) = slots n"
    "node_on (printed_node n) = node_on n"
    by (simp_all add: printed_node_def)
  then show ?thesis
    by (simp only: emit_node_def option.case push_cond_object cond_object_Some)
qed

lemma foldl_emit_node_printed:
  "foldl (emit_node ns) ls (map printed_node xs) = foldl (emit_node ns) ls xs"
  by (induction xs arbitrary: ls) (simp_all add: emit_node_printed_node)

lemma document_lines_printed_nodes:
  "document_lines ns (d\<lparr>nodes := map printed_node (nodes d)\<rparr>) = document_lines ns d"
proof -
  define d2 where "d2 = d\<lparr>nodes := map printed_node (nodes d)\<rparr>"
  have "surface d2 = surface d" "meta d2 = meta d" "theme d2 = theme d"
    "layout_constraints d2 = layout_constraints d" "state d2 = state d"
    "actions d2 = actions d" "nodes d2 = map printed_node (nodes d)" "bindings d2 = bindings d"
    by (simp_all add: d2_def)
  then have "document_lines ns d2 = document_lines ns d"
    by (simp only: document_lines_def foldl_emit_node_printed)
  then show ?thesis by (simp only: d2_def)
qed

lemma digit_char_digit: "digit_char n \<in> set ''0123456789''"
  unfolding digit_char_def by (rule nth_mem) simp

lemma digits_digit: "c \<in> set (digits n) \<Longrightarrow> c \<in> set ''0123456789''"
proof (induction n rule: digits.induct)
  case (1 n)
  then show ?case
    using digit_char_digit [of n] by (subst (asm) digits.simps) (auto split: if_splits)
qed

lemma digits_not_Nil: "digits n \<noteq> []"
  by (subst digits.simps) simp

lemma digit_char_eq: "digit_char n = digit_char m \<longleftrightarrow> n mod 10 = m mod 10"
proof -
  have "distinct ''0123456789''" by simp
  then show ?thesis
    unfolding digit_char_def by (subst nth_eq_iff_index_eq) simp_all
qed

lemma digits_eq: "digits n = digits m \<Longrightarrow> n = m"
proof (induction n arbitrary: m rule: digits.induct)
  case (1 n)
  show ?case
  proof (cases "n < 10")
    case True
    with 1(2) have "digits m = [digit_char n]" by (subst (asm) digits.simps) simp
    then have "m < 10" "digit_char m = digit_char n"
      using digits_not_Nil [of "m div 10"]
      by (subst (asm) digits.simps, auto split: if_splits)+
    with True show ?thesis by (simp add: digit_char_eq)
  next
    case False
    with 1(2) have eq: "digits m = digits (n div 10) @ [digit_char n]"
      by (subst (asm) digits.simps) simp
    have m: "\<not> m < 10"
    proof
      assume "m < 10"
      with eq digits_not_Nil [of "n div 10"] show False
        by (subst (asm) digits.simps) simp
    qed
    with eq have "digits (n div 10) = digits (m div 10)" "digit_char n = digit_char m"
      by (subst (asm) digits.simps, simp)+
    with 1(1) [OF False] have "n div 10 = m div 10" "n mod 10 = m mod 10"
      by (simp_all add: digit_char_eq)
    then show ?thesis by (metis div_mult_mod_eq)
  qed
qed

lemma number_text_String_int: "number_text (String_int i)"
proof -
  have d: "\<And>c n. c \<in> set (digits n) \<Longrightarrow> \<not> is_delim c \<and> \<not> ident_head c"
    using digits_digit by (fastforce simp: is_delim_def ident_head_def in_range_def)
  have h: "\<not> ident_head (hd (digits n))" for n
    using d [of "hd (digits n)" n] digits_not_Nil [of n] by simp
  show ?thesis
    using d h digits_not_Nil
    by (auto simp: number_text_def String_int_def is_delim_def ident_head_def in_range_def)
qed

lemma inj_String_int: "inj String_int"
proof (rule injI)
  fix i j :: int
  assume eq: "String_int i = String_int j"
  have minus: "CHR ''-'' \<noteq> hd (digits n)" for n
    using digits_digit [of "hd (digits n)" n] digits_not_Nil [of n] by auto
  show "i = j"
  proof (cases "i < 0"; cases "j < 0")
    assume "i < 0" "j < 0"
    with eq have "nat (- i) = nat (- j)" by (simp add: String_int_def digits_eq)
    with \<open>i < 0\<close> \<open>j < 0\<close> show ?thesis by simp
  next
    assume "\<not> i < 0" "\<not> j < 0"
    with eq have "nat i = nat j" by (simp add: String_int_def digits_eq)
    with \<open>\<not> i < 0\<close> \<open>\<not> j < 0\<close> show ?thesis by simp
  next
    assume "i < 0" "\<not> j < 0"
    with eq minus [of "nat j"] digits_not_Nil [of "nat j"] show ?thesis
      by (cases "digits (nat j)") (auto simp: String_int_def)
  next
    assume "\<not> i < 0" "j < 0"
    with eq minus [of "nat i"] digits_not_Nil [of "nat i"] show ?thesis
      by (cases "digits (nat i)") (auto simp: String_int_def)
  qed
qed

text \<open>
  C1, as the code has it. Let the rendering of numbers be injective and give number
  texts, as \<^verbatim>\<open>String\<close> does on the integers. Then two documents have the same text
  exactly when they agree on every field but \<^verbatim>\<open>dsl_version\<close> and \<^verbatim>\<open>meta.created_at\<close>,
  an absent \<^verbatim>\<open>visible_when\<close> or \<^verbatim>\<open>enabled_when\<close> counting as an empty one. So the text
  determines every other field of the document, and a parser can give back the
  printed document up to these fields and no further.
\<close>

theorem text_determines_fields:
  assumes inj: "inj ns" and ns: "\<And>n. number_text (ns n)"
  shows "serializeDuiDslDocument ns d1 = serializeDuiDslDocument ns d2 \<longleftrightarrow>
         text_fields d1 = text_fields d2"
proof
  assume "serializeDuiDslDocument ns d1 = serializeDuiDslDocument ns d2"
  then have "lex (In_word []) (serializeDuiDslDocument ns d1) =
             lex (In_word []) (serializeDuiDslDocument ns d2)" by simp
  then have "document_tokens ns d1 = document_tokens ns d2"
    by (simp add: lex_serialize [OF ns])
  then show "text_fields d1 = text_fields d2"
    by (rule document_tokens_unique [OF inj ns])
next
  assume "text_fields d1 = text_fields d2"
  then have "document_lines ns (d1\<lparr>nodes := map printed_node (nodes d1)\<rparr>) =
             document_lines ns (d2\<lparr>nodes := map printed_node (nodes d2)\<rparr>)"
    unfolding text_fields_def by (rule document_lines_printed_fields)
  then show "serializeDuiDslDocument ns d1 = serializeDuiDslDocument ns d2"
    by (simp only: document_lines_printed_nodes serializeDuiDslDocument_def)
qed

text \<open>
  The rendering of integers meets both hypotheses; the example document and the same
  document stamped one second later agree on the fields of the text, and print alike.
\<close>

theorem text_determines_fields_witness:
  "inj String_int \<and> (\<forall>n. number_text (String_int n)) \<and>
   text_fields sample_document = text_fields sample_document_later \<and>
   serializeDuiDslDocument String_int sample_document =
   serializeDuiDslDocument String_int sample_document_later"
  using text_determines_fields [OF inj_String_int number_text_String_int,
      of sample_document sample_document_later]
  by (simp add: inj_String_int number_text_String_int text_fields_def printed_fields_def
        sample_document_def sample_document_later_def)

text \<open>
  C1, as the specification states it, fails: the example document and the same
  document stamped one second later are different documents with the same text, so
  whatever \<^verbatim>\<open>parse\<close> returns on that text differs from one of them.
\<close>

theorem round_trip_counterexample:
  "serializeDuiDslDocument String_int sample_document =
     serializeDuiDslDocument String_int sample_document_later \<and>
   sample_document \<noteq> sample_document_later"
proof
  show "serializeDuiDslDocument String_int sample_document =
        serializeDuiDslDocument String_int sample_document_later"
    by (simp add: sample_document_later_def serializeDuiDslDocument_def document_lines_independent)
  show "sample_document \<noteq> sample_document_later"
    by (simp add: sample_document_def sample_document_later_def)
qed

end
